theory Spec2Isabelle
  imports Main "HOL-Library.AList"
begin

section \<open>LayeredConfig: layered configuration scopes over ranked sources\<close>

text \<open>
  A shallow embedding of \<^verbatim>\<open>src/layeredconfig/layeredconfig.py\<close>. Python objects
  live in stores indexed by addresses, because the code shares and mutates them:
  a source's \<^verbatim>\<open>dirty\<close> flag is written through its \<^verbatim>\<open>parent\<close> link, and
  scopes point at their parent scope. Exceptions are values of type \<open>error\<close>;
  a \<^verbatim>\<open>while\<close> loop that follows parent links is a partial function whose value
  \<open>None\<close> stands for a loop that never ends.
\<close>

subsection \<open>Values and errors\<close>

type_synonym addr = nat

datatype val = VStr string | VInt int | VBool bool

datatype error = AttributeError | KeyError | UnboundLocalError

subsection \<open>Sources\<close>

text \<open>
  Modelled from the spec: the source classes (the \<^verbatim>\<open>ConfigSource\<close> family) are not part
  of the source tree; \<^verbatim>\<open>LayeredConfig\<close> only calls them. The record below is the
  capability contract of section 4.1 of the specification, as a test double:
  \<^item> \<open>src_identifier\<close> (the attribute \<^verbatim>\<open>identifier\<close>), \<open>parent\<close>, \<open>writable\<close> and
    \<open>dirty\<close> are the fields the core reads and writes directly;
  \<^item> \<open>kind\<close> is the concrete class (\<^verbatim>\<open>src.__class__\<close>), \<open>cascade_arg\<close> the
    \<^verbatim>\<open>cascade\<close> keyword the instance was built with;
  \<^item> \<open>vals\<close> holds the raw values of this level: \<^verbatim>\<open>has(name)\<close> is true if the
    source carries a raw value for the name, \<^verbatim>\<open>get(name)\<close> returns it,
    \<^verbatim>\<open>set(name, value)\<close> stores the value at this level and leaves \<open>dirty\<close> alone
    (the docstring of \<^verbatim>\<open>__init__\<close> shows it: the file source writes out both keys
    that were assigned, one of which it did not hold before);
  \<^item> \<open>types\<close> holds the typing information, independent of the raw values:
    \<^verbatim>\<open>typed(name)\<close> is true if there is an entry, \<^verbatim>\<open>typevalue(name, raw)\<close> applies
    the coercion;
  \<^item> \<open>subs\<close> is the ordered table of nested sources, \<open>None\<close> for a source that
    does not support \<^verbatim>\<open>subsections()\<close> (the call raises \<^verbatim>\<open>AttributeError\<close>);
  \<^item> \<open>set_calls\<close> and \<open>saves\<close> log the calls of \<^verbatim>\<open>set\<close> and \<^verbatim>\<open>save\<close>.
\<close>

record source =
  src_identifier :: string
  parent :: "addr option"
  writable :: bool
  dirty :: bool
  kind :: string
  cascade_arg :: bool
  vals :: "string \<rightharpoonup> val"
  types :: "string \<rightharpoonup> (val \<Rightarrow> val)"
  subs :: "(string \<times> addr) list option"
  set_calls :: "(string \<times> val) list"
  saves :: nat

type_synonym heap = "addr \<Rightarrow> source"

definition src_has :: "source \<Rightarrow> string \<Rightarrow> bool" where
  "src_has s name = (vals s name \<noteq> None)"

definition src_typed :: "source \<Rightarrow> string \<Rightarrow> bool" where
  "src_typed s name = (types s name \<noteq> None)"

definition src_get :: "source \<Rightarrow> string \<Rightarrow> error + val" where
  "src_get s name = (case vals s name of None \<Rightarrow> Inl KeyError | Some v \<Rightarrow> Inr v)"

definition src_typevalue :: "source \<Rightarrow> string \<Rightarrow> val \<Rightarrow> error + val" where
  "src_typevalue s name raw =
     (case types s name of None \<Rightarrow> Inl KeyError | Some f \<Rightarrow> Inr (f raw))"

definition src_set :: "string \<Rightarrow> val \<Rightarrow> source \<Rightarrow> source" where
  "src_set name v s =
     s\<lparr>vals := (vals s)(name \<mapsto> v), set_calls := set_calls s @ [(name, v)]\<rparr>"

definition src_save :: "source \<Rightarrow> source" where
  "src_save s = s\<lparr>saves := Suc (saves s)\<rparr>"

text \<open>
  Modelled from the spec: the constructor call
  \<^verbatim>\<open>src.__class__(parent=src, identifier=src.identifier, writable=src.writable, cascade=...)\<close>
  of an absent source class. Section 4.1 asks for a valid but empty instance of the same
  concrete kind: no values, no typing information, no subsections, nothing logged.
\<close>

definition placeholder :: "source \<Rightarrow> addr \<Rightarrow> bool \<Rightarrow> source" where
  "placeholder src a casc =
     \<lparr>src_identifier = src_identifier src, parent = Some a, writable = writable src,
      dirty = False, kind = kind src, cascade_arg = casc,
      vals = Map.empty, types = Map.empty, subs = Some [],
      set_calls = [], saves = 0\<rparr>"

subsection \<open>Scopes\<close>

text \<open>
  The attributes of a \<^verbatim>\<open>LayeredConfig\<close> object. \<^verbatim>\<open>_subsections\<close> is an
  \<^verbatim>\<open>OrderedDict\<close>: an association list in insertion order.
\<close>

record scope =
  sources :: "addr list"
  subsections :: "(string \<times> addr) list"
  cascade :: bool
  cfg_writable :: bool
  cfg_parent :: "addr option"
  sectionkey :: "string option"

type_synonym scopes = "addr \<Rightarrow> scope"

definition startswith_underscore :: "string \<Rightarrow> bool" where
  "startswith_underscore name = (case name of [] \<Rightarrow> False | c # _ \<Rightarrow> c = CHR ''_'')"

subsection \<open>Attribute lookup\<close>

text \<open>
  The inner \<^verbatim>\<open>while not done\<close> loop of \<^verbatim>\<open>__getattribute__\<close>: test the source, and
  with cascade climb the source's own parent chain. The result is the flag
  \<^verbatim>\<open>found\<close> and the source the loop stopped at.
\<close>

partial_function (option) climb_has :: "heap \<Rightarrow> bool \<Rightarrow> string \<Rightarrow> addr \<Rightarrow> (bool \<times> addr) option" where
  "climb_has h casc name a =
     (if src_has (h a) name then Some (True, a)
      else if casc then
        (case parent (h a) of
           Some p \<Rightarrow> climb_has h casc name p
         | None \<Rightarrow> Some (False, a))
      else Some (False, a))"

text \<open>
  The loop \<^verbatim>\<open>for source in reversed(self._sources)\<close>, given the reversed list:
  the value source, if one is found.
\<close>

fun scan_sources :: "heap \<Rightarrow> bool \<Rightarrow> string \<Rightarrow> addr list \<Rightarrow> addr option option" where
  "scan_sources h casc name [] = Some None"
| "scan_sources h casc name (a # as) =
     (case climb_has h casc name a of
        None \<Rightarrow> None
      | Some (found, s) \<Rightarrow> if found then Some (Some s) else scan_sources h casc name as)"

text \<open>
  The loop \<^verbatim>\<open>for typesource in reversed(this._sources)\<close>: the flag \<^verbatim>\<open>done\<close> and
  the loop variable, which keeps its last binding when the loop ends without a hit
  (and its old binding when the list is empty).
\<close>

fun scan_typed :: "heap \<Rightarrow> string \<Rightarrow> addr list \<Rightarrow> addr option \<Rightarrow> bool \<times> addr option" where
  "scan_typed h name [] ts = (False, ts)"
| "scan_typed h name (a # as) ts =
     (if src_typed (h a) name then (True, Some a) else scan_typed h name as (Some a))"

text \<open>
  The \<^verbatim>\<open>while not done\<close> loop over scopes. The test reads \<^verbatim>\<open>self._cascade\<close>, the
  flag of the scope the lookup started at, passed as \<open>casc\<close>.
\<close>

partial_function (option) find_typesource ::
    "scopes \<Rightarrow> heap \<Rightarrow> bool \<Rightarrow> string \<Rightarrow> addr \<Rightarrow> addr option \<Rightarrow> addr option option" where
  "find_typesource cs h casc name this ts =
     (case scan_typed h name (rev (sources (cs this))) ts of
        (done, ts') \<Rightarrow>
          if \<not> done \<and> casc then
            (case cfg_parent (cs this) of
               Some p \<Rightarrow> find_typesource cs h casc name p ts'
             | None \<Rightarrow> Some ts')
          else Some ts')"

text \<open>What an attribute lookup returns.\<close>

datatype attr = ObjectAttr string | Section addr | Val val

definition as_val :: "error + val \<Rightarrow> error + attr" where
  "as_val r = (case r of Inl e \<Rightarrow> Inl e | Inr v \<Rightarrow> Inr (Val v))"

text \<open>
  The branch \<^verbatim>\<open>if found:\<close> of \<^verbatim>\<open>__getattribute__\<close>: the value source answers itself
  when it is typed for the name; otherwise a type source is looked for and, when
  there is one, coerces the raw value.
\<close>

definition resolve :: "scopes \<Rightarrow> heap \<Rightarrow> addr \<Rightarrow> string \<Rightarrow> addr \<Rightarrow> (error + attr) option" where
  "resolve cs h self name source =
     (if src_typed (h source) name then Some (as_val (src_get (h source) name))
      else
        (case find_typesource cs h (cascade (cs self)) name self None of
           None \<Rightarrow> None
         | Some None \<Rightarrow> Some (Inl UnboundLocalError)
         | Some (Some typesource) \<Rightarrow>
             if src_typed (h typesource) name then
               (case src_get (h source) name of
                  Inl e \<Rightarrow> Some (Inl e)
                | Inr raw \<Rightarrow> Some (as_val (src_typevalue (h typesource) name raw)))
             else Some (as_val (src_get (h source) name))))"

text \<open>
  \<^verbatim>\<open>__getattribute__\<close>. A name with a leading underscore is answered by
  \<^verbatim>\<open>object.__getattribute__\<close>, outside this model: the result \<open>ObjectAttr\<close>.
\<close>

partial_function (option) getattribute :: "scopes \<Rightarrow> heap \<Rightarrow> addr \<Rightarrow> string \<Rightarrow> (error + attr) option" where
  "getattribute cs h self name =
     (if startswith_underscore name then Some (Inr (ObjectAttr name))
      else
        (case map_of (subsections (cs self)) name of
           Some c \<Rightarrow> Some (Inr (Section c))
         | None \<Rightarrow>
             (case scan_sources h (cascade (cs self)) name (rev (sources (cs self))) of
                None \<Rightarrow> None
              | Some (Some source) \<Rightarrow> resolve cs h self name source
              | Some None \<Rightarrow>
                  if cascade (cs self) then
                    (case cfg_parent (cs self) of
                       Some p \<Rightarrow> getattribute cs h p name
                     | None \<Rightarrow> Some (Inl AttributeError))
                  else Some (Inl AttributeError))))"

subsection \<open>Attribute assignment\<close>

text \<open>
  The loop \<^verbatim>\<open>while writesource.parent\<close> of \<^verbatim>\<open>__setattr__\<close>: every ancestor of
  the write target, along the source's own parent chain, is marked dirty.
\<close>

partial_function (option) mark_parents_dirty :: "heap \<Rightarrow> addr \<Rightarrow> heap option" where
  "mark_parents_dirty h a =
     (case parent (h a) of
        None \<Rightarrow> Some h
      | Some p \<Rightarrow> mark_parents_dirty (h(p := (h p)\<lparr>dirty := True\<rparr>)) p)"

text \<open>
  Step 1 of \<^verbatim>\<open>__setattr__\<close>: the first writable source in reverse order receives the
  value and is marked dirty with its ancestors; with no writable source nothing happens.
\<close>

definition write_target :: "heap \<Rightarrow> addr list \<Rightarrow> string \<Rightarrow> val \<Rightarrow> heap option" where
  "write_target h srcs name v =
     (case find (\<lambda>a. writable (h a)) (rev srcs) of
        None \<Rightarrow> Some h
      | Some w \<Rightarrow> mark_parents_dirty (h(w := (src_set name v (h w))\<lparr>dirty := True\<rparr>)) w)"

text \<open>
  What an assignment returns: \<open>Done\<close> for Python's \<^verbatim>\<open>None\<close>; a name with a leading
  underscore is handed to \<^verbatim>\<open>object.__setattr__\<close>, outside this model.
\<close>

datatype setres = ObjectSetattr string val | Done

text \<open>
  \<^verbatim>\<open>__setattr__\<close>. An exception does not undo what was written before it, so the
  store is returned next to the outcome in every case.
\<close>

partial_function (option) setattr ::
    "scopes \<Rightarrow> heap \<Rightarrow> addr \<Rightarrow> string \<Rightarrow> val \<Rightarrow> ((error + setres) \<times> heap) option" where
  "setattr cs h self name v =
     (if startswith_underscore name then Some (Inr (ObjectSetattr name v), h)
      else
        (case write_target h (sources (cs self)) name v of
           None \<Rightarrow> None
         | Some h1 \<Rightarrow>
             (case find (\<lambda>a. src_has (h1 a) name \<or> src_typed (h1 a) name)
                     (rev (sources (cs self))) of
                Some source \<Rightarrow> Some (Inr Done, h1(source := src_set name v (h1 source)))
              | None \<Rightarrow>
                  if cascade (cs self) then
                    (case cfg_parent (cs self) of
                       Some p \<Rightarrow> setattr cs h1 p name v
                     | None \<Rightarrow> Some (Inl AttributeError, h1))
                  else Some (Inl AttributeError, h1))))"

subsection \<open>The static methods write and set\<close>

text \<open>The loop \<^verbatim>\<open>while root._parent\<close> of \<^verbatim>\<open>write\<close>.\<close>

partial_function (option) root_of :: "scopes \<Rightarrow> addr \<Rightarrow> addr option" where
  "root_of cs c =
     (case cfg_parent (cs c) of
        None \<Rightarrow> Some c
      | Some p \<Rightarrow> root_of cs p)"

text \<open>The loop \<^verbatim>\<open>for source in root._sources\<close> of \<^verbatim>\<open>write\<close>.\<close>

fun save_sources :: "heap \<Rightarrow> addr list \<Rightarrow> heap" where
  "save_sources h [] = h"
| "save_sources h (a # as) =
     save_sources (if writable (h a) \<and> dirty (h a) then h(a := src_save (h a)) else h) as"

definition write_config :: "scopes \<Rightarrow> heap \<Rightarrow> addr \<Rightarrow> heap option" where
  "write_config cs h config =
     (case root_of cs config of
        None \<Rightarrow> None
      | Some root \<Rightarrow> Some (save_sources h (sources (cs root))))"

text \<open>The loop of the static method \<^verbatim>\<open>set\<close>, over the sources in list order.\<close>

fun set_sources :: "heap \<Rightarrow> addr list \<Rightarrow> string \<Rightarrow> val \<Rightarrow> string \<Rightarrow> heap" where
  "set_sources h [] key v sourceid = h"
| "set_sources h (a # as) key v sourceid =
     set_sources (if src_identifier (h a) = sourceid then h(a := src_set key v (h a)) else h)
       as key v sourceid"

definition set_static :: "scopes \<Rightarrow> heap \<Rightarrow> addr \<Rightarrow> string \<Rightarrow> val \<Rightarrow> string \<Rightarrow> heap" where
  "set_static cs h config key v sourceid = set_sources h (sources (cs config)) key v sourceid"

subsection \<open>Construction\<close>

text \<open>
  The constructor allocates objects: the scope itself, a child scope for every
  subsection name, and placeholder sources. The state holds both stores and the next
  free address of each.
\<close>

record state =
  srcs :: heap
  cfgs :: scopes
  next_src :: addr
  next_cfg :: addr

text \<open>
  Step 1 of \<^verbatim>\<open>__init__\<close>: the inner loop \<^verbatim>\<open>for k in src.subsections()\<close> appends
  the names not seen yet; the outer loop skips a source whose \<^verbatim>\<open>subsections()\<close>
  raises \<^verbatim>\<open>AttributeError\<close> (the \<^verbatim>\<open>except\<close> clause).
\<close>

fun add_sectionkeys :: "string list \<Rightarrow> string list \<Rightarrow> string list" where
  "add_sectionkeys sectionkeys [] = sectionkeys"
| "add_sectionkeys sectionkeys (k # ks) =
     add_sectionkeys (if k \<in> set sectionkeys then sectionkeys else sectionkeys @ [k]) ks"

fun find_sectionkeys :: "heap \<Rightarrow> string list \<Rightarrow> addr list \<Rightarrow> string list" where
  "find_sectionkeys h sectionkeys [] = sectionkeys"
| "find_sectionkeys h sectionkeys (src # rest) =
     find_sectionkeys h
       (case subs (h src) of
          None \<Rightarrow> sectionkeys
        | Some kvs \<Rightarrow> add_sectionkeys sectionkeys (map fst kvs))
       rest"

text \<open>
  Step 2, the loop \<^verbatim>\<open>for src in self._sources\<close> for one name \<open>k\<close>: the list \<open>s\<close>
  gains the source's own subsection or a newly allocated placeholder. Here
  \<^verbatim>\<open>src.subsections()\<close> is called outside any \<^verbatim>\<open>try\<close>, so a source without
  subsection support ends the construction with \<^verbatim>\<open>AttributeError\<close>.
\<close>

fun find_subsections ::
    "state \<Rightarrow> bool \<Rightarrow> string \<Rightarrow> addr list \<Rightarrow> addr list \<Rightarrow> error + state \<times> addr list" where
  "find_subsections st casc k [] s = Inr (st, s)"
| "find_subsections st casc k (src # rest) s =
     (case subs (srcs st src) of
        None \<Rightarrow> Inl AttributeError
      | Some kvs \<Rightarrow>
          (case map_of kvs k of
             Some sub \<Rightarrow> find_subsections st casc k rest (s @ [sub])
           | None \<Rightarrow>
               let a = next_src st
               in find_subsections
                    (st\<lparr>srcs := (srcs st)(a := placeholder (srcs st src) src casc),
                        next_src := Suc a\<rparr>)
                    casc k rest (s @ [a])))"

text \<open>
  \<^verbatim>\<open>__init__\<close>, with the loop \<^verbatim>\<open>for k in sectionkeys\<close> as \<open>make_subsections\<close>. The
  constructor calls itself for every child scope; the first argument bounds the depth
  of these nested calls, and \<open>None\<close> means that the bound was too small. The result is
  the new state and the address of the new scope.
\<close>

fun init :: "nat \<Rightarrow> state \<Rightarrow> addr list \<Rightarrow> bool \<Rightarrow> bool \<Rightarrow> (error + state \<times> addr) option"
  and make_subsections :: "nat \<Rightarrow> state \<Rightarrow> addr \<Rightarrow> string list \<Rightarrow> (error + state) option" where
  "init 0 st ss casc wr = None"
| "init (Suc n) st ss casc wr =
     (let self = next_cfg st;
          st1 = st\<lparr>cfgs := (cfgs st)(self :=
                       \<lparr>sources = ss, subsections = [], cascade = casc, cfg_writable = wr,
                        cfg_parent = None, sectionkey = None\<rparr>),
                    next_cfg := Suc self\<rparr>
      in case make_subsections n st1 self (find_sectionkeys (srcs st1) [] ss) of
           None \<Rightarrow> None
         | Some (Inl e) \<Rightarrow> Some (Inl e)
         | Some (Inr st2) \<Rightarrow> Some (Inr (st2, self)))"
| "make_subsections n st self [] = Some (Inr st)"
| "make_subsections n st self (k # ks) =
     (case find_subsections st (cascade (cfgs st self)) k (sources (cfgs st self)) [] of
        Inl e \<Rightarrow> Some (Inl e)
      | Inr (st1, s) \<Rightarrow>
          (case init n st1 s (cascade (cfgs st1 self)) (cfg_writable (cfgs st1 self)) of
             None \<Rightarrow> None
           | Some (Inl e) \<Rightarrow> Some (Inl e)
           | Some (Inr (st2, c)) \<Rightarrow>
               let st3 = st2\<lparr>cfgs := (cfgs st2)(c := (cfgs st2 c)\<lparr>sectionkey := Some k\<rparr>)\<rparr>;
                   st4 = st3\<lparr>cfgs := (cfgs st3)(c := (cfgs st3 c)\<lparr>cfg_parent := Some self\<rparr>)\<rparr>;
                   st5 = st4\<lparr>cfgs := (cfgs st4)(self := (cfgs st4 self)
                              \<lparr>subsections := AList.update k c (subsections (cfgs st4 self))\<rparr>)\<rparr>
               in make_subsections n st5 self ks))"

subsection \<open>Parent chains\<close>

text \<open>
  The objects a loop over parent links visits: \<open>scope_chain cs [c, p, ..., r]\<close> says
  that \<open>p\<close> is the parent scope of \<open>c\<close> and so on up to the root \<open>r\<close>, which has no
  parent; \<open>src_chain\<close> says the same of a source and its \<^verbatim>\<open>parent\<close> links.
  \<open>type_candidates\<close> lists the sources of the scopes of a chain in the order the
  search for a type source tests them.
\<close>

fun scope_chain :: "scopes \<Rightarrow> addr list \<Rightarrow> bool" where
  "scope_chain cs [] = False"
| "scope_chain cs [c] = (cfg_parent (cs c) = None)"
| "scope_chain cs (c # p # ps) = (cfg_parent (cs c) = Some p \<and> scope_chain cs (p # ps))"

fun src_chain :: "heap \<Rightarrow> addr list \<Rightarrow> bool" where
  "src_chain h [] = False"
| "src_chain h [a] = (parent (h a) = None)"
| "src_chain h (a # b # bs) = (parent (h a) = Some b \<and> src_chain h (b # bs))"

definition type_candidates :: "scopes \<Rightarrow> addr list \<Rightarrow> addr list" where
  "type_candidates cs chain = concat (map (\<lambda>c. rev (sources (cs c))) chain)"

subsection \<open>Notions for assignments\<close>

text \<open>
  A source knows a name when it has a value or typing information for it: the test of
  the second loop of \<^verbatim>\<open>__setattr__\<close>. \<open>outranks_known h ss name w\<close> says that \<open>w\<close>
  stands in the reversed list \<open>ss\<close> before every source that knows the name, that is,
  has a higher priority than all of them. \<open>written h w as name v\<close> is the store after
  step 1 has written to the source \<open>w\<close> with ancestors \<open>as\<close>.
\<close>

definition written :: "heap \<Rightarrow> addr \<Rightarrow> addr list \<Rightarrow> string \<Rightarrow> val \<Rightarrow> heap" where
  "written h w as name v =
     (\<lambda>x. (if x = w then src_set name v (h x) else h x)
            \<lparr>dirty := (x = w \<or> x \<in> set as \<or> dirty (h x))\<rparr>)"

definition known :: "heap \<Rightarrow> string \<Rightarrow> addr \<Rightarrow> bool" where
  "known h name a = (src_has (h a) name \<or> src_typed (h a) name)"

definition outranks_known :: "heap \<Rightarrow> addr list \<Rightarrow> string \<Rightarrow> addr \<Rightarrow> bool" where
  "outranks_known h ss name w = (w \<in> set (takeWhile (\<lambda>a. \<not> known h name a) (rev ss)))"

subsection \<open>Notions for the construction\<close>

text \<open>
  \<open>first_seen\<close> keeps the first occurrence of every element of a list.
  \<open>subsection_names\<close> are the names a source contributes in step 1 (none when it does
  not support \<^verbatim>\<open>subsections()\<close>), \<open>own_subsection\<close> is the nested source it has for a
  name. \<open>paired h h' fresh casc k src a\<close> says that \<open>a\<close> stands for the source \<open>src\<close> in
  the child scope for \<open>k\<close>: it is the source's own subsection, or else a placeholder
  allocated at or after the address \<open>fresh\<close>.
\<close>

definition first_seen :: "'a list \<Rightarrow> 'a list" where
  "first_seen xs = rev (remdups (rev xs))"

definition subsection_names :: "heap \<Rightarrow> addr \<Rightarrow> string list" where
  "subsection_names h src = (case subs (h src) of None \<Rightarrow> [] | Some kvs \<Rightarrow> map fst kvs)"

definition own_subsection :: "heap \<Rightarrow> addr \<Rightarrow> string \<Rightarrow> addr option" where
  "own_subsection h src k = (case subs (h src) of None \<Rightarrow> None | Some kvs \<Rightarrow> map_of kvs k)"

definition paired :: "heap \<Rightarrow> heap \<Rightarrow> addr \<Rightarrow> bool \<Rightarrow> string \<Rightarrow> addr \<Rightarrow> addr \<Rightarrow> bool" where
  "paired h h' fresh casc k src a =
     (case own_subsection h src k of
        Some sub \<Rightarrow> a = sub
      | None \<Rightarrow> fresh \<le> a \<and> h' a = placeholder (h src) src casc)"

text \<open>
  Well-formed inputs of the constructor. \<open>nested h n a\<close>: the source \<open>a\<close> and all
  sources nested in it support \<^verbatim>\<open>subsections()\<close>, and the nesting is at most \<open>n\<close>
  levels deep. \<open>closed h bound\<close>: the subsections of the sources allocated so far
  (below \<open>bound\<close>) are allocated too. \<open>extends st st'\<close>: the constructor only
  allocates; the sources that existed keep their content.
\<close>

fun nested :: "heap \<Rightarrow> nat \<Rightarrow> addr \<Rightarrow> bool" where
  "nested h 0 a = (subs (h a) = Some [])"
| "nested h (Suc n) a =
     (case subs (h a) of None \<Rightarrow> False | Some kvs \<Rightarrow> \<forall>b \<in> snd ` set kvs. nested h n b)"

definition closed :: "heap \<Rightarrow> addr \<Rightarrow> bool" where
  "closed h bound =
     (\<forall>a < bound. case subs (h a) of None \<Rightarrow> True | Some kvs \<Rightarrow> \<forall>b \<in> snd ` set kvs. b < bound)"

definition child_ok ::
    "state \<Rightarrow> state \<Rightarrow> addr \<Rightarrow> addr list \<Rightarrow> bool \<Rightarrow> bool \<Rightarrow> string \<Rightarrow> addr \<Rightarrow> bool" where
  "child_ok st st' self ss casc wr k c =
     (list_all2 (paired (srcs st) (srcs st') (next_src st) casc k) ss (sources (cfgs st' c))
      \<and> cfg_parent (cfgs st' c) = Some self \<and> sectionkey (cfgs st' c) = Some k
      \<and> cascade (cfgs st' c) = casc \<and> cfg_writable (cfgs st' c) = wr)"

definition built :: "state \<Rightarrow> state \<Rightarrow> addr \<Rightarrow> addr list \<Rightarrow> bool \<Rightarrow> bool \<Rightarrow> bool" where
  "built st st' self ss casc wr =
     (sources (cfgs st' self) = ss \<and> cascade (cfgs st' self) = casc
      \<and> cfg_writable (cfgs st' self) = wr
      \<and> map fst (subsections (cfgs st' self))
          = first_seen (concat (map (subsection_names (srcs st)) ss))
      \<and> (\<forall>(k, c) \<in> set (subsections (cfgs st' self)). child_ok st st' self ss casc wr k c))"

definition extends :: "state \<Rightarrow> state \<Rightarrow> bool" where
  "extends st st' =
     ((\<forall>a < next_src st. srcs st' a = srcs st a) \<and> next_src st \<le> next_src st'
      \<and> next_cfg st \<le> next_cfg st' \<and> closed (srcs st') (next_src st'))"

subsection \<open>Example configurations\<close>

text \<open>
  Concrete stores for the examples below. \<open>to_int\<close> is the coercion of a source that
  types a key as an integer: it reads a string of decimal digits. \<open>blank_source\<close> is an
  in-code defaults source with no content, \<open>blank_scope\<close> a scope with no sources; the
  stores update them at the addresses they use.
\<close>

definition digit_of :: "char \<Rightarrow> int" where
  "digit_of c = int (of_char c) - 48"

definition int_of_string :: "string \<Rightarrow> int" where
  "int_of_string s = foldl (\<lambda>n c. 10 * n + digit_of c) 0 s"

fun to_int :: "val \<Rightarrow> val" where
  "to_int (VStr s) = VInt (int_of_string s)"
| "to_int v = v"

definition blank_source :: source where
  "blank_source =
     \<lparr>src_identifier = ''defaults'', parent = None, writable = False, dirty = False,
      kind = ''Defaults'', cascade_arg = False, vals = Map.empty, types = Map.empty,
      subs = Some [], set_calls = [], saves = 0\<rparr>"

definition blank_scope :: scope where
  "blank_scope =
     \<lparr>sources = [], subsections = [], cascade = False, cfg_writable = True,
      cfg_parent = None, sectionkey = None\<rparr>"

definition typed_heap :: heap where
  "typed_heap = (\<lambda>_. blank_source)
     (0 := blank_source\<lparr>vals := [''k'' \<mapsto> VInt 5], types := [''k'' \<mapsto> to_int]\<rparr>,
      1 := blank_source\<lparr>src_identifier := ''commandline'', kind := ''Commandline'',
             vals := [''k'' \<mapsto> VStr ''7'']\<rparr>)"

definition flat_scopes :: scopes where
  "flat_scopes = (\<lambda>_. blank_scope)(0 := blank_scope\<lparr>sources := [0, 1]\<rparr>)"

definition nested_heap :: heap where
  "nested_heap = (\<lambda>_. blank_source)
     (0 := blank_source\<lparr>vals := [''k'' \<mapsto> VInt 5],
             types := [''k'' \<mapsto> to_int, ''j'' \<mapsto> to_int]\<rparr>,
      1 := blank_source\<lparr>src_identifier := ''commandline'', kind := ''Commandline'',
             vals := [''j'' \<mapsto> VStr ''7'']\<rparr>)"

definition nested_scopes :: scopes where
  "nested_scopes = (\<lambda>_. blank_scope)
     (0 := blank_scope\<lparr>sources := [0], subsections := [(''sub'', 1)], cascade := True\<rparr>,
      1 := blank_scope\<lparr>sources := [1], cascade := True, cfg_parent := Some 0,
             sectionkey := Some ''sub''\<rparr>)"

definition saved_heap :: heap where
  "saved_heap = (\<lambda>_. blank_source)
     (0 := blank_source\<lparr>dirty := True\<rparr>,
      1 := blank_source\<lparr>src_identifier := ''inifile'', kind := ''INIFile'', writable := True,
             dirty := True\<rparr>,
      2 := blank_source\<lparr>src_identifier := ''jsonfile'', kind := ''JSONFile'', writable := True\<rparr>,
      3 := blank_source\<lparr>src_identifier := ''inifile'', kind := ''INIFile'', writable := True,
             dirty := True, parent := Some 1\<rparr>)"

definition saved_scopes :: scopes where
  "saved_scopes = (\<lambda>_. blank_scope)
     (0 := blank_scope\<lparr>sources := [0, 1, 2], subsections := [(''sub'', 1)]\<rparr>,
      1 := blank_scope\<lparr>sources := [3], cfg_parent := Some 0, sectionkey := Some ''sub''\<rparr>)"

definition write_heap :: heap where
  "write_heap = (\<lambda>_. blank_source)
     (0 := blank_source\<lparr>vals := [''k'' \<mapsto> VInt 5], types := [''k'' \<mapsto> to_int]\<rparr>,
      1 := blank_source\<lparr>src_identifier := ''inifile'', kind := ''INIFile'', writable := True\<rparr>,
      2 := blank_source\<lparr>parent := Some 0, vals := [''m'' \<mapsto> VInt 1],
             types := [''m'' \<mapsto> to_int]\<rparr>,
      3 := blank_source\<lparr>src_identifier := ''inifile'', kind := ''INIFile'', writable := True,
             parent := Some 1\<rparr>,
      4 := blank_source\<lparr>src_identifier := ''commandline'', kind := ''Commandline'',
             vals := [''c'' \<mapsto> VStr ''x'']\<rparr>)"

definition write_scopes :: scopes where
  "write_scopes = (\<lambda>_. blank_scope)
     (0 := blank_scope\<lparr>sources := [0, 1], subsections := [(''sub'', 1), (''ro'', 2)],
             cascade := True\<rparr>,
      1 := blank_scope\<lparr>sources := [2, 3, 4], cascade := True, cfg_parent := Some 0,
             sectionkey := Some ''sub''\<rparr>,
      2 := blank_scope\<lparr>sources := [2, 4], cascade := True, cfg_parent := Some 0,
             sectionkey := Some ''ro''\<rparr>,
      3 := blank_scope\<lparr>sources := [2, 3, 4]\<rparr>)"

definition union_heap :: heap where
  "union_heap = (\<lambda>_. blank_source)
     (0 := blank_source\<lparr>subs := Some [(''a'', 2), (''b'', 3)]\<rparr>,
      1 := blank_source\<lparr>src_identifier := ''inifile'', kind := ''INIFile'', writable := True,
             subs := Some [(''b'', 4), (''c'', 5)]\<rparr>,
      2 := blank_source\<lparr>parent := Some 0\<rparr>,
      3 := blank_source\<lparr>parent := Some 0\<rparr>,
      4 := blank_source\<lparr>src_identifier := ''inifile'', kind := ''INIFile'', writable := True,
             parent := Some 1\<rparr>,
      5 := blank_source\<lparr>src_identifier := ''inifile'', kind := ''INIFile'', writable := True,
             parent := Some 1\<rparr>)"

definition union_state :: state where
  "union_state = \<lparr>srcs = union_heap, cfgs = (\<lambda>_. blank_scope), next_src = 6, next_cfg = 0\<rparr>"

definition unsupported_state :: state where
  "unsupported_state =
     union_state\<lparr>srcs := union_heap(1 := (union_heap 1)\<lparr>subs := None\<rparr>)\<rparr>"

section \<open>Properties\<close>

lemma climb_has_here: "src_has (h a) name \<Longrightarrow> climb_has h casc name a = Some (True, a)"
  by (subst climb_has.simps) simp

lemma climb_has_no_cascade:
  "climb_has h False name a = Some (src_has (h a) name, a)"
  by (subst climb_has.simps) simp

lemma scan_sources_no_cascade:
  "scan_sources h False name as = Some (find (\<lambda>a. src_has (h a) name) as)"
  by (induction as) (simp_all add: climb_has_no_cascade)

lemma climb_has_found:
  assumes "climb_has h casc name a = Some r"
  shows "fst r = src_has (h (snd r)) name"
  by (rule climb_has.raw_induct[OF _ assms]) (auto split: if_splits option.splits)

lemma scan_sources_found:
  "scan_sources h casc name as = Some (Some s) \<Longrightarrow> src_has (h s) name"
proof (induction as)
  case Nil
  then show ?case by simp
next
  case (Cons a as)
  show ?case
  proof (cases "climb_has h casc name a")
    case None
    with Cons.prems show ?thesis by simp
  next
    case (Some r)
    obtain found t where r: "r = (found, t)" by (cases r)
    from climb_has_found[OF Some] r have f: "found = src_has (h t) name" by simp
    show ?thesis
    proof (cases found)
      case True
      with Cons.prems Some r have "s = t" by simp
      with f True show ?thesis by simp
    next
      case False
      with Cons.prems Some r have "scan_sources h casc name as = Some (Some s)" by simp
      then show ?thesis by (rule Cons.IH)
    qed
  qed
qed

subsection \<open>Reading\<close>

lemma scan_typed_find:
  "scan_typed h name as ts =
     (case find (\<lambda>a. src_typed (h a) name) as of
        Some t \<Rightarrow> (True, Some t)
      | None \<Rightarrow> (False, if as = [] then ts else Some (last as)))"
  by (induction as arbitrary: ts) (auto split: option.splits)

lemma find_typesource_no_cascade:
  "find_typesource cs h False name c ts =
     Some (snd (scan_typed h name (rev (sources (cs c))) ts))"
  by (subst find_typesource.simps) (simp split: prod.splits)

lemma find_append:
  "find P (xs @ ys) = (case find P xs of Some x \<Rightarrow> Some x | None \<Rightarrow> find P ys)"
  by (induction xs) auto

lemma find_typesource_chain:
  "scope_chain cs (c # ps) \<Longrightarrow>
   find_typesource cs h True name c ts =
     Some (case find (\<lambda>a. src_typed (h a) name) (type_candidates cs (c # ps)) of
             Some t \<Rightarrow> Some t
           | None \<Rightarrow> if type_candidates cs (c # ps) = [] then ts
                     else Some (last (type_candidates cs (c # ps))))"
proof (induction ps arbitrary: c ts)
  case Nil
  then show ?case
    by (subst find_typesource.simps)
       (simp add: scan_typed_find type_candidates_def split: option.splits)
next
  case (Cons p ps)
  from Cons.prems have par: "cfg_parent (cs c) = Some p" and ch: "scope_chain cs (p # ps)"
    by simp_all
  note IH = Cons.IH[OF ch]
  show ?case
  proof (cases "find (\<lambda>a. src_typed (h a) name) (rev (sources (cs c)))")
    case (Some t)
    then show ?thesis
      by (subst find_typesource.simps)
         (simp add: scan_typed_find type_candidates_def find_append)
  next
    case None
    have tc: "type_candidates cs (c # p # ps) = rev (sources (cs c)) @ type_candidates cs (p # ps)"
      by (simp add: type_candidates_def)
    show ?thesis
      apply (subst find_typesource.simps)
      apply (simp add: scan_typed_find None par IH tc find_append del: rev_is_Nil_conv)
      apply (auto simp: tc split: option.splits)
      done
  qed
qed


lemma resolve_untyped:
  assumes has: "vals (h vs) name = Some raw"
    and untyped: "\<not> src_typed (h vs) name"
    and fts: "find_typesource cs h (cascade (cs self)) name self None =
        Some (case find (\<lambda>a. src_typed (h a) name) cands of
                Some t \<Rightarrow> Some t
              | None \<Rightarrow> if cands = [] then None else Some (last cands))"
    and ne: "cands \<noteq> []"
  shows "resolve cs h self name vs =
     Some (case find (\<lambda>a. src_typed (h a) name) cands of
             Some ts \<Rightarrow> as_val (src_typevalue (h ts) name raw)
           | None \<Rightarrow> Inr (Val raw))"
proof (cases "find (\<lambda>a. src_typed (h a) name) cands")
  case None
  then have "\<not> src_typed (h (last cands)) name"
    using ne by (simp add: find_None_iff)
  then show ?thesis
    by (simp add: resolve_def untyped fts None ne src_get_def has as_val_def)
next
  case (Some t)
  then have "src_typed (h t) name"
    by (auto simp: find_Some_iff)
  then show ?thesis
    by (simp add: resolve_def untyped fts Some src_get_def has)
qed


lemma climb_has_chain_none:
  "src_chain h (a # as) \<Longrightarrow> \<forall>b \<in> set (a # as). \<not> src_has (h b) name \<Longrightarrow>
   climb_has h True name a = Some (False, last (a # as))"
proof (induction as arbitrary: a)
  case Nil
  then show ?case by (subst climb_has.simps) simp
next
  case (Cons b bs)
  from Cons.prems have "climb_has h True name b = Some (False, last (b # bs))"
    by (intro Cons.IH) simp_all
  with Cons.prems show ?case by (subst climb_has.simps) simp
qed

lemma scan_sources_skip:
  "\<forall>a \<in> set xs. \<exists>t. climb_has h casc name a = Some (False, t) \<Longrightarrow>
   scan_sources h casc name (xs @ ys) = scan_sources h casc name ys"
  by (induction xs) auto

lemma resolve_value:
  assumes raw: "vals (h vs) name = Some raw"
    and ne: "sources (cs self) \<noteq> []"
    and chain: "cascade (cs self) \<Longrightarrow> \<not> src_typed (h vs) name \<Longrightarrow> scope_chain cs (self # ps)"
  shows "resolve cs h self name vs =
     Some (if src_typed (h vs) name then Inr (Val raw)
           else case find (\<lambda>a. src_typed (h a) name)
                       (type_candidates cs (if cascade (cs self) then self # ps else [self])) of
                  Some ts \<Rightarrow> as_val (src_typevalue (h ts) name raw)
                | None \<Rightarrow> Inr (Val raw))"
proof (cases "src_typed (h vs) name")
  case True
  then show ?thesis by (simp add: resolve_def src_get_def raw as_val_def)
next
  case False
  let ?cands = "type_candidates cs (if cascade (cs self) then self # ps else [self])"
  from ne have cne: "?cands \<noteq> []" by (simp add: type_candidates_def)
  have fts: "find_typesource cs h (cascade (cs self)) name self None =
        Some (case find (\<lambda>a. src_typed (h a) name) ?cands of
                Some t \<Rightarrow> Some t
              | None \<Rightarrow> if ?cands = [] then None else Some (last ?cands))"
  proof (cases "cascade (cs self)")
    case True
    with find_typesource_chain[OF chain[OF True False], of h name None] show ?thesis by simp
  next
    case False
    then show ?thesis
      by (simp add: find_typesource_no_cascade scan_typed_find type_candidates_def
          split: option.splits)
  qed
  from resolve_untyped[OF raw False fts cne] False show ?thesis by simp
qed

text \<open>
  Claim C1. The scan over the sources runs in reverse index order and stops at the
  first source where the key is found: if the source \<open>s\<close> has the key \<open>k\<close> (not an
  internal name, not a subsection name) and no source of higher priority has it (nor,
  with cascade, an ancestor of such a source), then \<open>s\<close> is the value source, whatever
  the sources of lower priority hold, and the lookup returns the value resolved from
  \<open>s\<close>: the value \<open>s\<close> holds when \<open>s\<close> is typed for \<open>k\<close>, otherwise that value coerced by
  the type source, or unchanged when there is no type source. In particular, when all
  sources \<open>S1..Sn\<close> have \<open>k\<close>, no source stands above \<open>Sn\<close> and the lookup is answered
  from \<open>Sn\<close>.
\<close>

theorem getattribute_priority:
  assumes key: "\<not> startswith_underscore name" "map_of (subsections (cs self)) name = None"
    and srcs: "sources (cs self) = lower @ s # higher"
    and has: "src_has (h s) name"
    and higher: "\<forall>a \<in> set higher. \<not> src_has (h a) name"
    and higher_chains: "cascade (cs self) \<Longrightarrow>
        \<forall>a \<in> set higher. \<exists>ch. src_chain h (a # ch) \<and> (\<forall>b \<in> set ch. \<not> src_has (h b) name)"
    and chain: "cascade (cs self) \<Longrightarrow> \<not> src_typed (h s) name \<Longrightarrow> scope_chain cs (self # ps)"
  shows "scan_sources h (cascade (cs self)) name (rev (sources (cs self))) = Some (Some s)
     \<and> (\<exists>raw. vals (h s) name = Some raw
          \<and> getattribute cs h self name =
              Some (if src_typed (h s) name then Inr (Val raw)
                    else case find (\<lambda>a. src_typed (h a) name)
                                (type_candidates cs
                                   (if cascade (cs self) then self # ps else [self])) of
                           Some ts \<Rightarrow> as_val (src_typevalue (h ts) name raw)
                         | None \<Rightarrow> Inr (Val raw)))"
proof -
  have miss: "\<forall>a \<in> set (rev higher). \<exists>t. climb_has h (cascade (cs self)) name a = Some (False, t)"
  proof
    fix a assume "a \<in> set (rev higher)"
    then have a: "a \<in> set higher" by simp
    show "\<exists>t. climb_has h (cascade (cs self)) name a = Some (False, t)"
    proof (cases "cascade (cs self)")
      case True
      from higher_chains[OF True] a obtain ch where
        ch: "src_chain h (a # ch)" "\<forall>b \<in> set ch. \<not> src_has (h b) name"
        by blast
      with higher a have "\<forall>b \<in> set (a # ch). \<not> src_has (h b) name" by simp
      from climb_has_chain_none[OF ch(1) this] True show ?thesis by simp
    next
      case False
      with higher a show ?thesis by (simp add: climb_has_no_cascade)
    qed
  qed
  have "scan_sources h (cascade (cs self)) name (rev (sources (cs self)))
      = scan_sources h (cascade (cs self)) name (rev higher @ s # rev lower)"
    by (simp add: srcs)
  also have "\<dots> = scan_sources h (cascade (cs self)) name (s # rev lower)"
    using miss by (rule scan_sources_skip)
  also have "\<dots> = Some (Some s)"
    using has by (simp add: climb_has_here)
  finally have scan: "scan_sources h (cascade (cs self)) name (rev (sources (cs self))) = Some (Some s)" .
  from has obtain raw where raw: "vals (h s) name = Some raw"
    by (auto simp: src_has_def)
  from srcs have ne: "sources (cs self) \<noteq> []" by simp
  have "getattribute cs h self name = resolve cs h self name s"
    by (subst getattribute.simps) (simp add: key scan)
  moreover have "resolve cs h self name s =
     Some (if src_typed (h s) name then Inr (Val raw)
           else case find (\<lambda>a. src_typed (h a) name)
                       (type_candidates cs (if cascade (cs self) then self # ps else [self])) of
                  Some ts \<Rightarrow> as_val (src_typevalue (h ts) name raw)
                | None \<Rightarrow> Inr (Val raw))"
    using raw ne chain by (rule resolve_value)
  ultimately show ?thesis using scan raw by simp
qed

text \<open>
  Two instances. In the first both sources have \<open>k\<close>: the lookup is answered from the
  higher one, source 1, whose string \<open>7\<close> the lower source types as an integer. In the
  second, with cascade on, the scan passes the sources 4 and 3 and the parent 1 of
  source 3, none of which has \<open>m\<close>, and stops at source 2.
\<close>

theorem getattribute_priority_witness:
  "(\<not> startswith_underscore ''k'' \<and> map_of (subsections (flat_scopes 0)) ''k'' = None
    \<and> sources (flat_scopes 0) = [0] @ 1 # []
    \<and> src_has (typed_heap 0) ''k'' \<and> src_has (typed_heap 1) ''k''
    \<and> \<not> cascade (flat_scopes 0))
   \<and> scan_sources typed_heap (cascade (flat_scopes 0)) ''k'' (rev (sources (flat_scopes 0)))
       = Some (Some 1)
   \<and> getattribute flat_scopes typed_heap 0 ''k'' = Some (Inr (Val (VInt 7)))
   \<and> (\<not> startswith_underscore ''m'' \<and> map_of (subsections (write_scopes 1)) ''m'' = None
    \<and> sources (write_scopes 1) = [] @ 2 # [3, 4]
    \<and> src_has (write_heap 2) ''m'' \<and> src_typed (write_heap 2) ''m''
    \<and> cascade (write_scopes 1)
    \<and> src_chain write_heap [3, 1] \<and> \<not> src_has (write_heap 3) ''m''
    \<and> \<not> src_has (write_heap 1) ''m''
    \<and> src_chain write_heap [4] \<and> \<not> src_has (write_heap 4) ''m'')
   \<and> scan_sources write_heap (cascade (write_scopes 1)) ''m'' (rev (sources (write_scopes 1)))
       = Some (Some 2)
   \<and> getattribute write_scopes write_heap 1 ''m'' = Some (Inr (Val (VInt 1)))"
proof -
  have hyps_k: "\<not> startswith_underscore ''k''" "map_of (subsections (flat_scopes 0)) ''k'' = None"
    "sources (flat_scopes 0) = [0] @ 1 # []" "src_has (typed_heap 0) ''k''"
    "src_has (typed_heap 1) ''k''" "\<not> cascade (flat_scopes 0)"
    by (simp_all add: startswith_underscore_def flat_scopes_def typed_heap_def blank_scope_def
        blank_source_def src_has_def)
  have types_k: "\<not> src_typed (typed_heap 1) ''k''"
    "find (\<lambda>a. src_typed (typed_heap a) ''k'') (type_candidates flat_scopes [0]) = Some 0"
    "vals (typed_heap 1) ''k'' = Some (VStr ''7'')"
    "src_typevalue (typed_heap 0) ''k'' (VStr ''7'') = Inr (VInt 7)"
    by (simp_all add: flat_scopes_def typed_heap_def blank_scope_def blank_source_def
        src_typed_def src_typevalue_def type_candidates_def int_of_string_def digit_of_def)
  have k: "scan_sources typed_heap (cascade (flat_scopes 0)) ''k'' (rev (sources (flat_scopes 0)))
       = Some (Some 1)
     \<and> getattribute flat_scopes typed_heap 0 ''k'' = Some (Inr (Val (VInt 7)))"
    using getattribute_priority[where cs = flat_scopes and self = 0 and h = typed_heap
        and name = "''k''" and lower = "[0]" and s = 1 and higher = "[]" and ps = "[]"]
      hyps_k types_k
    by (simp add: as_val_def)
  have hyps_m: "\<not> startswith_underscore ''m''" "map_of (subsections (write_scopes 1)) ''m'' = None"
    "sources (write_scopes 1) = [] @ 2 # [3, 4]" "src_has (write_heap 2) ''m''"
    "src_typed (write_heap 2) ''m''" "cascade (write_scopes 1)"
    "src_chain write_heap [3, 1]" "\<not> src_has (write_heap 3) ''m''"
    "\<not> src_has (write_heap 1) ''m''" "src_chain write_heap [4]" "\<not> src_has (write_heap 4) ''m''"
    by (simp_all add: startswith_underscore_def write_scopes_def write_heap_def blank_scope_def
        blank_source_def src_has_def src_typed_def)
  have c3: "\<exists>ch. src_chain write_heap (3 # ch) \<and> (\<forall>b \<in> set ch. \<not> src_has (write_heap b) ''m'')"
    using hyps_m by (intro exI[of _ "[1]"]) simp
  have c4: "\<exists>ch. src_chain write_heap (4 # ch) \<and> (\<forall>b \<in> set ch. \<not> src_has (write_heap b) ''m'')"
    using hyps_m by (intro exI[of _ "[]"]) simp
  from c3 c4 have chains_m: "\<forall>a \<in> set [3, 4]. \<exists>ch. src_chain write_heap (a # ch)
      \<and> (\<forall>b \<in> set ch. \<not> src_has (write_heap b) ''m'')"
    by simp
  have val_m: "vals (write_heap 2) ''m'' = Some (VInt 1)"
    by (simp add: write_heap_def blank_source_def)
  have m: "scan_sources write_heap (cascade (write_scopes 1)) ''m'' (rev (sources (write_scopes 1)))
       = Some (Some 2)
     \<and> getattribute write_scopes write_heap 1 ''m'' = Some (Inr (Val (VInt 1)))"
    using getattribute_priority[where cs = write_scopes and self = 1 and h = write_heap
        and name = "''m''" and lower = "[]" and s = 2 and higher = "[3, 4]" and ps = "[]"]
      hyps_m chains_m val_m
    by (simp del: scan_sources.simps)
  from hyps_k k hyps_m m show ?thesis by simp
qed

text \<open>
  Claim C2. When the value source found for \<open>k\<close> is untyped for \<open>k\<close>, the type source
  is the first source typed for \<open>k\<close> in the reversed source list of the current scope
  and, only with cascade, of its parent scopes in turn. With a type source the lookup
  returns its \<^verbatim>\<open>typevalue\<close> of the value source's raw value; with none it returns
  the raw value unchanged.
\<close>

theorem getattribute_type_recovery:
  assumes key: "\<not> startswith_underscore name" "map_of (subsections (cs self)) name = None"
    and vs: "scan_sources h (cascade (cs self)) name (rev (sources (cs self))) = Some (Some vs)"
    and untyped: "\<not> src_typed (h vs) name"
    and chain: "cascade (cs self) \<Longrightarrow> scope_chain cs (self # ps)"
  shows "\<exists>raw. vals (h vs) name = Some raw \<and>
     getattribute cs h self name =
       Some (case find (\<lambda>a. src_typed (h a) name)
                    (type_candidates cs (if cascade (cs self) then self # ps else [self])) of
               Some ts \<Rightarrow> as_val (src_typevalue (h ts) name raw)
             | None \<Rightarrow> Inr (Val raw))"
proof -
  let ?cands = "type_candidates cs (if cascade (cs self) then self # ps else [self])"
  from scan_sources_found[OF vs] obtain raw where raw: "vals (h vs) name = Some raw"
    by (auto simp: src_has_def)
  from vs have srcs: "sources (cs self) \<noteq> []"
    by (cases "sources (cs self)") simp_all
  then have ne: "?cands \<noteq> []"
    by (simp add: type_candidates_def)
  have fts: "find_typesource cs h (cascade (cs self)) name self None =
        Some (case find (\<lambda>a. src_typed (h a) name) ?cands of
                Some t \<Rightarrow> Some t
              | None \<Rightarrow> if ?cands = [] then None else Some (last ?cands))"
  proof (cases "cascade (cs self)")
    case True
    with find_typesource_chain[OF chain[OF True], of h name None] show ?thesis by simp
  next
    case False
    then show ?thesis
      by (simp add: find_typesource_no_cascade scan_typed_find type_candidates_def
          split: option.splits)
  qed
  have "getattribute cs h self name = resolve cs h self name vs"
    by (subst getattribute.simps) (simp add: key vs)
  also have "\<dots> = Some (case find (\<lambda>a. src_typed (h a) name) ?cands of
             Some ts \<Rightarrow> as_val (src_typevalue (h ts) name raw)
           | None \<Rightarrow> Inr (Val raw))"
    by (rule resolve_untyped[OF raw untyped fts ne])
  finally show ?thesis using raw by blast
qed

theorem getattribute_type_recovery_witness:
  "(\<not> startswith_underscore ''j'' \<and> map_of (subsections (nested_scopes 1)) ''j'' = None
    \<and> scan_sources nested_heap (cascade (nested_scopes 1)) ''j''
          (rev (sources (nested_scopes 1))) = Some (Some 1)
    \<and> \<not> src_typed (nested_heap 1) ''j''
    \<and> cascade (nested_scopes 1) \<and> scope_chain nested_scopes [1, 0])
   \<and> vals (nested_heap 1) ''j'' = Some (VStr ''7'')
   \<and> find (\<lambda>a. src_typed (nested_heap a) ''j'') (type_candidates nested_scopes [1, 0]) = Some 0
   \<and> getattribute nested_scopes nested_heap 1 ''j'' = Some (Inr (Val (VInt 7)))"
  using getattribute_type_recovery[of "''j''" nested_scopes 1 nested_heap 1 "[0]"]
  by (simp add: startswith_underscore_def nested_scopes_def nested_heap_def blank_scope_def
      blank_source_def src_has_def src_typed_def src_typevalue_def as_val_def
      climb_has.simps type_candidates_def int_of_string_def digit_of_def)

lemma scan_sources_none:
  assumes "\<forall>a \<in> set as. \<exists>ch. src_chain h (a # ch) \<and> (\<forall>b \<in> set (a # ch). \<not> src_has (h b) name)"
  shows "scan_sources h casc name as = Some None"
  using assms
proof (induction as)
  case Nil
  then show ?case by simp
next
  case (Cons a as)
  then obtain ch where ch: "src_chain h (a # ch)" "\<forall>b \<in> set (a # ch). \<not> src_has (h b) name"
    by auto
  have "climb_has h casc name a = Some (False, if casc then last (a # ch) else a)"
  proof (cases casc)
    case True
    with climb_has_chain_none[OF ch] show ?thesis by simp
  next
    case False
    with ch(2) show ?thesis by (simp add: climb_has_no_cascade)
  qed
  moreover from Cons have "scan_sources h casc name as = Some None" by simp
  ultimately show ?case by simp
qed

text \<open>
  Claim C3. A key \<open>k\<close> that no local source has, nor any ancestor of a local source
  along the source's own parent chain: with cascade and a parent scope the lookup is
  the parent scope's lookup of \<open>k\<close>; the same scope with cascade off fails with
  \<^verbatim>\<open>AttributeError\<close>.
\<close>

theorem getattribute_cascade_fallback:
  assumes key: "\<not> startswith_underscore name" "map_of (subsections (cs self)) name = None"
    and local: "\<forall>a \<in> set (sources (cs self)).
        \<exists>ch. src_chain h (a # ch) \<and> (\<forall>b \<in> set (a # ch). \<not> src_has (h b) name)"
  shows "(cascade (cs self) \<longrightarrow> cfg_parent (cs self) = Some p \<longrightarrow>
            getattribute cs h self name = getattribute cs h p name)
       \<and> getattribute (cs(self := (cs self)\<lparr>cascade := False\<rparr>)) h self name
            = Some (Inl AttributeError)"
proof -
  from local have scan: "scan_sources h casc name (rev (sources (cs self))) = Some None" for casc
    by (intro scan_sources_none) simp
  have "getattribute cs h self name = getattribute cs h p name"
    if "cascade (cs self)" "cfg_parent (cs self) = Some p"
    by (subst getattribute.simps) (simp add: key scan that)
  moreover have "getattribute (cs(self := (cs self)\<lparr>cascade := False\<rparr>)) h self name
            = Some (Inl AttributeError)"
    by (subst getattribute.simps) (simp add: key scan)
  ultimately show ?thesis by blast
qed

theorem getattribute_cascade_fallback_witness:
  "(\<not> startswith_underscore ''k'' \<and> map_of (subsections (nested_scopes 1)) ''k'' = None
    \<and> sources (nested_scopes 1) = [1]
    \<and> src_chain nested_heap [1] \<and> \<not> src_has (nested_heap 1) ''k''
    \<and> cascade (nested_scopes 1) \<and> cfg_parent (nested_scopes 1) = Some 0)
   \<and> getattribute nested_scopes nested_heap 0 ''k'' = Some (Inr (Val (VInt 5)))
   \<and> getattribute nested_scopes nested_heap 1 ''k'' = Some (Inr (Val (VInt 5)))
   \<and> getattribute (nested_scopes(1 := (nested_scopes 1)\<lparr>cascade := False\<rparr>)) nested_heap 1 ''k''
        = Some (Inl AttributeError)"
proof -
  have root: "getattribute nested_scopes nested_heap 0 ''k'' = Some (Inr (Val (VInt 5)))"
    by (simp add: getattribute.simps climb_has.simps resolve_def startswith_underscore_def
        nested_scopes_def nested_heap_def blank_scope_def blank_source_def src_has_def
        src_typed_def src_get_def as_val_def)
  have hyp: "\<forall>a \<in> set (sources (nested_scopes 1)).
        \<exists>ch. src_chain nested_heap (a # ch) \<and> (\<forall>b \<in> set (a # ch). \<not> src_has (nested_heap b) ''k'')"
    by (simp add: nested_scopes_def nested_heap_def blank_scope_def blank_source_def src_has_def
        exI[of _ "[]"])
  show ?thesis
    using getattribute_cascade_fallback[of "''k''" nested_scopes 1 nested_heap 0, OF _ _ hyp] root
    by (simp add: startswith_underscore_def nested_scopes_def nested_heap_def blank_scope_def
        blank_source_def src_has_def)
qed

subsection \<open>The static methods\<close>

lemma root_of_chain: "scope_chain cs (c # ps) \<Longrightarrow> root_of cs c = Some (last (c # ps))"
proof (induction ps arbitrary: c)
  case Nil
  then show ?case by (subst root_of.simps) simp
next
  case (Cons p ps)
  then have "root_of cs p = Some (last (p # ps))" by simp
  with Cons.prems show ?case by (subst root_of.simps) simp
qed

lemma save_sources_apply:
  "save_sources h as a =
     (h a)\<lparr>saves := saves (h a) + (if writable (h a) \<and> dirty (h a) then count_list as a else 0)\<rparr>"
  by (induction as arbitrary: h) (auto simp: src_save_def)

text \<open>
  Claim C8. From any scope of a tree, \<^verbatim>\<open>write\<close> climbs the parent links to the root
  scope and calls \<^verbatim>\<open>save\<close> on the sources in the root's own list that are writable
  and dirty, once for each place in the list. Every other source, in particular one
  that is not dirty, not writable or listed only in another scope, gets no call, and
  nothing but the call counts changes.
\<close>

theorem write_saves_dirty_root_sources:
  assumes "scope_chain cs (config # ps)"
  shows "\<exists>h'. write_config cs h config = Some h' \<and>
     (\<forall>a. h' a = (h a)\<lparr>saves := saves (h a) +
        (if writable (h a) \<and> dirty (h a)
         then count_list (sources (cs (last (config # ps)))) a else 0)\<rparr>)"
  using root_of_chain[OF assms] by (simp add: write_config_def save_sources_apply)

theorem write_saves_dirty_root_sources_witness:
  "scope_chain saved_scopes [1, 0]
   \<and> (\<exists>h'. write_config saved_scopes saved_heap 1 = Some h'
        \<and> saves (h' 0) = 0 \<and> saves (h' 1) = 1 \<and> saves (h' 2) = 0 \<and> saves (h' 3) = 0)"
proof -
  have ch: "scope_chain saved_scopes [1, 0]"
    by (simp add: saved_scopes_def blank_scope_def)
  from write_saves_dirty_root_sources[OF ch, of saved_heap]
  obtain h' where h': "write_config saved_scopes saved_heap 1 = Some h'"
    and eq: "\<And>a. h' a = (saved_heap a)\<lparr>saves := saves (saved_heap a) +
        (if writable (saved_heap a) \<and> dirty (saved_heap a)
         then count_list (sources (saved_scopes (last [1, 0]))) a else 0)\<rparr>"
    by blast
  have "saves (h' 0) = 0" "saves (h' 1) = 1" "saves (h' 2) = 0" "saves (h' 3) = 0"
    by (simp_all add: eq saved_heap_def saved_scopes_def blank_scope_def blank_source_def)
  with ch h' show ?thesis by blast
qed

lemma set_sources_apply:
  "set_sources h as key v sid a =
     (if src_identifier (h a) = sid then ((src_set key v) ^^ count_list as a) (h a) else h a)"
proof (induction as arbitrary: h)
  case Nil
  then show ?case by simp
next
  case (Cons x xs)
  have id: "src_identifier (src_set key v s) = src_identifier s" for s
    by (simp add: src_set_def)
  show ?case
    by (simp add: Cons.IH id funpow_swap1)
qed

lemma src_set_funpow:
  "dirty (((src_set key v) ^^ n) s) = dirty s"
  "set_calls (((src_set key v) ^^ n) s) = set_calls s @ replicate n (key, v)"
  "0 < n \<Longrightarrow> vals (((src_set key v) ^^ n) s) key = Some v"
  by (induction n) (simp_all add: src_set_def replicate_append_same)

text \<open>
  Claim C10. The static \<^verbatim>\<open>set\<close> calls \<^verbatim>\<open>set(key, value)\<close> on each source in the scope's
  list whose identifier equals \<open>sourceid\<close>, so that such a source holds the value
  afterwards; no dirty flag changes, sources that do not match are left as they are,
  and when no source matches the whole store is unchanged. No error is possible: the
  result is a store.
\<close>

theorem set_static_by_identifier:
  "dirty (set_static cs h config key v sid a) = dirty (h a)
   \<and> set_calls (set_static cs h config key v sid a) =
       set_calls (h a) @ replicate (if src_identifier (h a) = sid
                                    then count_list (sources (cs config)) a else 0) (key, v)
   \<and> (a \<in> set (sources (cs config)) \<and> src_identifier (h a) = sid \<longrightarrow>
        vals (set_static cs h config key v sid a) key = Some v)
   \<and> (a \<notin> set (sources (cs config)) \<or> src_identifier (h a) \<noteq> sid \<longrightarrow>
        set_static cs h config key v sid a = h a)
   \<and> ((\<forall>b \<in> set (sources (cs config)). src_identifier (h b) \<noteq> sid) \<longrightarrow>
        set_static cs h config key v sid = h)"
proof -
  have 1: "dirty (set_static cs h config key v sid a) = dirty (h a)"
    by (simp add: set_static_def set_sources_apply src_set_funpow)
  have 2: "set_calls (set_static cs h config key v sid a) =
       set_calls (h a) @ replicate (if src_identifier (h a) = sid
                                    then count_list (sources (cs config)) a else 0) (key, v)"
    by (simp add: set_static_def set_sources_apply src_set_funpow)
  have 3: "vals (set_static cs h config key v sid a) key = Some v"
    if "a \<in> set (sources (cs config))" "src_identifier (h a) = sid"
  proof -
    from that(1) have "count_list (sources (cs config)) a \<noteq> 0"
      by (simp add: count_list_0_iff)
    then have "0 < count_list (sources (cs config)) a" by simp
    with that(2) show ?thesis
      by (simp add: set_static_def set_sources_apply src_set_funpow)
  qed
  have 4: "set_static cs h config key v sid b = h b"
    if "b \<notin> set (sources (cs config)) \<or> src_identifier (h b) \<noteq> sid" for b
    using that by (auto simp: set_static_def set_sources_apply count_list_0_iff)
  have 5: "set_static cs h config key v sid = h"
    if "\<forall>b \<in> set (sources (cs config)). src_identifier (h b) \<noteq> sid"
    using that 4 by (intro ext) blast
  from 1 2 3 4 5 show ?thesis by blast
qed

theorem set_static_by_identifier_witness:
  "vals (set_static flat_scopes typed_heap 0 ''k'' (VInt 9) ''defaults'' 0) ''k'' = Some (VInt 9)
   \<and> set_calls (set_static flat_scopes typed_heap 0 ''k'' (VInt 9) ''defaults'' 0) = [(''k'', VInt 9)]
   \<and> dirty (set_static flat_scopes typed_heap 0 ''k'' (VInt 9) ''defaults'' 0) = False
   \<and> set_static flat_scopes typed_heap 0 ''k'' (VInt 9) ''defaults'' 1 = typed_heap 1
   \<and> set_static flat_scopes typed_heap 0 ''k'' (VInt 9) ''nosuch'' = typed_heap"
  using set_static_by_identifier[of flat_scopes typed_heap 0 "''k''" "VInt 9" "''defaults''" 0]
    set_static_by_identifier[of flat_scopes typed_heap 0 "''k''" "VInt 9" "''defaults''" 1]
    set_static_by_identifier[of flat_scopes typed_heap 0 "''k''" "VInt 9" "''nosuch''" 0]
  by (simp add: flat_scopes_def typed_heap_def blank_scope_def blank_source_def)

subsection \<open>Assigning\<close>

lemma src_chain_parents:
  "(\<And>x. parent (h' x) = parent (h x)) \<Longrightarrow> src_chain h' as = src_chain h as"
  by (induction h as rule: src_chain.induct) simp_all

lemma mark_parents_dirty_chain:
  "src_chain h (a # as) \<Longrightarrow>
   mark_parents_dirty h a = Some (\<lambda>x. if x \<in> set as then (h x)\<lparr>dirty := True\<rparr> else h x)"
proof (induction as arbitrary: h a)
  case Nil
  then show ?case by (subst mark_parents_dirty.simps) simp
next
  case (Cons b bs)
  let ?h = "h(b := (h b)\<lparr>dirty := True\<rparr>)"
  from Cons.prems have par: "parent (h a) = Some b" and ch: "src_chain h (b # bs)"
    by simp_all
  have "src_chain ?h (b # bs) = src_chain h (b # bs)"
    by (rule src_chain_parents) simp
  with ch have "src_chain ?h (b # bs)" by simp
  then have "mark_parents_dirty ?h b =
      Some (\<lambda>x. if x \<in> set bs then (?h x)\<lparr>dirty := True\<rparr> else ?h x)"
    by (rule Cons.IH)
  also have "(\<lambda>x. if x \<in> set bs then (?h x)\<lparr>dirty := True\<rparr> else ?h x) =
      (\<lambda>x. if x \<in> set (b # bs) then (h x)\<lparr>dirty := True\<rparr> else h x)"
    by (rule ext) simp
  finally have m: "mark_parents_dirty ?h b =
      Some (\<lambda>x. if x \<in> set (b # bs) then (h x)\<lparr>dirty := True\<rparr> else h x)" .
  show ?case by (subst mark_parents_dirty.simps) (simp only: par option.case m)
qed

lemma write_target_none:
  "\<forall>a \<in> set ss. \<not> writable (h a) \<Longrightarrow> write_target h ss name v = Some h"
  by (simp add: write_target_def find_None_iff[THEN iffD2])

lemma write_target_some:
  assumes w: "find (\<lambda>a. writable (h a)) (rev ss) = Some w"
    and ch: "src_chain h (w # as)"
  shows "write_target h ss name v = Some (written h w as name v)"
proof -
  let ?h = "h(w := (src_set name v (h w))\<lparr>dirty := True\<rparr>)"
  have "src_chain ?h (w # as) = src_chain h (w # as)"
    by (rule src_chain_parents) (simp add: src_set_def)
  with ch have "src_chain ?h (w # as)" by simp
  from mark_parents_dirty_chain[OF this]
  have "mark_parents_dirty ?h w = Some (\<lambda>x. if x \<in> set as then (?h x)\<lparr>dirty := True\<rparr> else ?h x)" .
  also have "(\<lambda>x. if x \<in> set as then (?h x)\<lparr>dirty := True\<rparr> else ?h x) = written h w as name v"
    by (rule ext) (simp add: written_def)
  finally have m: "mark_parents_dirty ?h w = Some (written h w as name v)" .
  show ?thesis by (simp only: write_target_def w option.case m)
qed

lemma known_written:
  "known (written h w as name v) name x = (x = w \<or> known h name x)"
  by (auto simp: known_def written_def src_has_def src_typed_def src_set_def)

lemma find_or_eq:
  "find (\<lambda>x. x = w \<or> P x) xs =
     (if w \<in> set (takeWhile (\<lambda>x. \<not> P x) xs) then Some w else find P xs)"
  by (induction xs) auto

lemma find_known_written:
  "find (known (written h w as name v) name) (rev ss) =
     (if outranks_known h ss name w then Some w else find (known h name) (rev ss))"
proof -
  have "known (written h w as name v) name = (\<lambda>x. x = w \<or> known h name x)"
    by (rule ext) (rule known_written)
  then show ?thesis
    by (simp only: outranks_known_def find_or_eq)
qed

lemma setattr_step2:
  assumes "\<not> startswith_underscore name"
    and "write_target h (sources (cs self)) name v = Some h1"
    and "find (known h1 name) (rev (sources (cs self))) = Some d"
  shows "setattr cs h self name v = Some (Inr Done, h1(d := src_set name v (h1 d)))"
  using assms by (subst setattr.simps) (simp add: known_def[abs_def])

lemma setattr_step2_none:
  assumes "\<not> startswith_underscore name"
    and "write_target h (sources (cs self)) name v = Some h1"
    and "find (known h1 name) (rev (sources (cs self))) = None"
  shows "setattr cs h self name v =
     (if cascade (cs self) then
        (case cfg_parent (cs self) of
           Some p \<Rightarrow> setattr cs h1 p name v
         | None \<Rightarrow> Some (Inl AttributeError, h1))
      else Some (Inl AttributeError, h1))"
  using assms by (subst setattr.simps) (simp add: known_def[abs_def])

lemmas fixture_defs = write_heap_def write_scopes_def blank_scope_def blank_source_def
  startswith_underscore_def src_has_def src_typed_def src_set_def known_def

lemmas eval_defs = setattr.simps write_target_def mark_parents_dirty.simps fixture_defs

lemma find_Some_set: "find P xs = Some x \<Longrightarrow> x \<in> set xs \<and> P x"
  by (induction xs) (auto split: if_splits)

lemma setattr_absorbed:
  assumes key: "\<not> startswith_underscore name"
    and w: "find (\<lambda>a. writable (h a)) (rev (sources (cs self))) = Some w"
    and ch: "src_chain h (w # as)"
    and none: "\<forall>a \<in> set (sources (cs self)). \<not> known h name a"
  shows "setattr cs h self name v =
     Some (Inr Done, (written h w as name v)(w := src_set name v (written h w as name v w)))"
proof -
  from none have "takeWhile (\<lambda>a. \<not> known h name a) (rev (sources (cs self))) = rev (sources (cs self))"
    by (simp add: takeWhile_eq_all_conv)
  moreover from find_Some_set[OF w] have "w \<in> set (rev (sources (cs self)))"
    by simp
  ultimately have "outranks_known h (sources (cs self)) name w"
    by (simp only: outranks_known_def)
  then have "find (known (written h w as name v) name) (rev (sources (cs self))) = Some w"
    by (simp add: find_known_written)
  with key write_target_some[OF w ch, of name v] show ?thesis
    by (intro setattr_step2)
qed

text \<open>
  Claim C7, as amended. In a scope with no writable source and no delegation to a parent
  scope (cascade off, or no parent), an assignment skips the write step and depends on
  the second scan alone. It fails with \<^verbatim>\<open>AttributeError\<close>, every source left as it was,
  exactly when no source has the key or typing information for it. Otherwise it
  succeeds: the first such source in reverse order receives \<^verbatim>\<open>set\<close>, writable or not,
  and no dirty flag changes.
\<close>

theorem setattr_without_writable_source:
  assumes key: "\<not> startswith_underscore name"
    and nowr: "\<forall>a \<in> set (sources (cs self)). \<not> writable (h a)"
    and nodeleg: "\<not> cascade (cs self) \<or> cfg_parent (cs self) = None"
  shows "setattr cs h self name v =
     (case find (known h name) (rev (sources (cs self))) of
        Some d \<Rightarrow> Some (Inr Done, h(d := src_set name v (h d)))
      | None \<Rightarrow> Some (Inl AttributeError, h))"
proof -
  have wt: "write_target h (sources (cs self)) name v = Some h"
    using nowr by (rule write_target_none)
  show ?thesis
  proof (cases "find (known h name) (rev (sources (cs self)))")
    case None
    with key wt have "setattr cs h self name v =
       (if cascade (cs self) then
          (case cfg_parent (cs self) of
             Some p \<Rightarrow> setattr cs h p name v
           | None \<Rightarrow> Some (Inl AttributeError, h))
        else Some (Inl AttributeError, h))"
      by (intro setattr_step2_none)
    with nodeleg None show ?thesis by auto
  next
    case (Some d)
    with key wt have "setattr cs h self name v = Some (Inr Done, h(d := src_set name v (h d)))"
      by (intro setattr_step2)
    with Some show ?thesis by simp
  qed
qed

text \<open>
  Two sources that are not writable and both hold \<open>k\<close>, cascade off, no parent scope:
  the assignment returns normally and the source of higher priority holds the new value.
\<close>

theorem setattr_without_writable_source_counterexample:
  "\<not> writable (typed_heap 0) \<and> \<not> writable (typed_heap 1) \<and> sources (flat_scopes 0) = [0, 1]
   \<and> \<not> cascade (flat_scopes 0) \<and> cfg_parent (flat_scopes 0) = None
   \<and> (\<exists>h'. setattr flat_scopes typed_heap 0 ''k'' (VStr ''9'') = Some (Inr Done, h')
          \<and> vals (h' 1) ''k'' = Some (VStr ''9''))"
  by (simp add: setattr.simps write_target_def flat_scopes_def typed_heap_def fixture_defs)

text \<open>
  The same scope: an unknown key fails and leaves the store as it was, a known key is
  set on the source of higher priority.
\<close>

theorem setattr_without_writable_source_witness:
  "(\<not> startswith_underscore ''k'' \<and> \<not> startswith_underscore ''z''
    \<and> sources (flat_scopes 0) = [0, 1] \<and> \<not> writable (typed_heap 0) \<and> \<not> writable (typed_heap 1)
    \<and> \<not> cascade (flat_scopes 0))
   \<and> setattr flat_scopes typed_heap 0 ''z'' (VStr ''9'') = Some (Inl AttributeError, typed_heap)
   \<and> setattr flat_scopes typed_heap 0 ''k'' (VStr ''9'')
        = Some (Inr Done, typed_heap(1 := src_set ''k'' (VStr ''9'') (typed_heap 1)))"
  using setattr_without_writable_source[of "''z''" flat_scopes 0 typed_heap "VStr ''9''"]
    setattr_without_writable_source[of "''k''" flat_scopes 0 typed_heap "VStr ''9''"]
  by (simp add: flat_scopes_def typed_heap_def blank_scope_def blank_source_def
      startswith_underscore_def known_def src_has_def src_typed_def)

text \<open>
  Claim C5, as amended. Let \<open>W\<close> be the highest-priority writable source, with
  ancestors \<open>as\<close>, and \<open>D \<noteq> W\<close> the highest-priority source that has the key or is
  typed for it. The assignment succeeds; \<open>W\<close> receives \<^verbatim>\<open>set\<close> and holds the value. The
  second scan runs on the store after that write: when \<open>D\<close> has the higher priority it
  finds \<open>D\<close>, which receives \<^verbatim>\<open>set\<close> too; when \<open>W\<close> has the higher priority it finds
  \<open>W\<close> again, \<open>W\<close> receives a second \<^verbatim>\<open>set\<close> and \<open>D\<close> none. In both cases the dirty
  flags of \<open>W\<close> and its ancestors are true afterwards, every other dirty flag is
  unchanged, and no third source is set.
\<close>

theorem setattr_write_targeting:
  assumes key: "\<not> startswith_underscore name"
    and w: "find (\<lambda>a. writable (h a)) (rev (sources (cs self))) = Some w"
    and ch: "src_chain h (w # as)"
    and d: "find (known h name) (rev (sources (cs self))) = Some d"
    and neq: "d \<noteq> w"
  shows "\<exists>h'. setattr cs h self name v = Some (Inr Done, h')
     \<and> set_calls (h' w) = set_calls (h w) @
          (if outranks_known h (sources (cs self)) name w then [(name, v), (name, v)]
           else [(name, v)])
     \<and> set_calls (h' d) = set_calls (h d) @
          (if outranks_known h (sources (cs self)) name w then [] else [(name, v)])
     \<and> vals (h' w) name = Some v
     \<and> vals (h' d) name =
          (if outranks_known h (sources (cs self)) name w then vals (h d) name else Some v)
     \<and> (\<forall>x. dirty (h' x) = (x = w \<or> x \<in> set as \<or> dirty (h x)))
     \<and> (\<forall>x. x \<noteq> w \<longrightarrow> x \<noteq> d \<longrightarrow>
            set_calls (h' x) = set_calls (h x) \<and> vals (h' x) = vals (h x))"
proof -
  let ?h1 = "written h w as name v"
  let ?d = "if outranks_known h (sources (cs self)) name w then w else d"
  let ?h' = "?h1(?d := src_set name v (?h1 ?d))"
  have "find (known ?h1 name) (rev (sources (cs self))) = Some ?d"
    by (simp add: find_known_written d)
  with key write_target_some[OF w ch, of name v]
  have "setattr cs h self name v = Some (Inr Done, ?h')"
    by (intro setattr_step2)
  moreover have "set_calls (?h' w) = set_calls (h w) @
          (if outranks_known h (sources (cs self)) name w then [(name, v), (name, v)]
           else [(name, v)])"
    using neq by (simp add: written_def src_set_def)
  moreover have "set_calls (?h' d) = set_calls (h d) @
          (if outranks_known h (sources (cs self)) name w then [] else [(name, v)])"
    using neq by (simp add: written_def src_set_def)
  moreover have "vals (?h' w) name = Some v"
    using neq by (simp add: written_def src_set_def)
  moreover have "vals (?h' d) name =
          (if outranks_known h (sources (cs self)) name w then vals (h d) name else Some v)"
    using neq by (simp add: written_def src_set_def)
  moreover have "\<forall>x. dirty (?h' x) = (x = w \<or> x \<in> set as \<or> dirty (h x))"
    by (simp add: written_def src_set_def)
  moreover have "\<forall>x. x \<noteq> w \<longrightarrow> x \<noteq> d \<longrightarrow>
            set_calls (?h' x) = set_calls (h x) \<and> vals (?h' x) = vals (h x)"
    by (simp add: written_def src_set_def)
  ultimately show ?thesis by blast
qed

text \<open>
  The layout of the constructor's docstring in miniature: defaults that hold \<open>m\<close>
  (source 2), above them a writable file source (source 3), above that the command
  line (source 4). Assigning \<open>m\<close> calls \<^verbatim>\<open>set\<close> on the file source twice and never on
  the defaults, which keep their old value.
\<close>

theorem setattr_write_targeting_counterexample:
  "find (\<lambda>a. writable (write_heap a)) (rev (sources (write_scopes 1))) = Some 3
   \<and> find (known write_heap ''m'') (rev (sources (write_scopes 1))) = Some 2
   \<and> (\<exists>h'. setattr write_scopes write_heap 1 ''m'' (VInt 2) = Some (Inr Done, h')
          \<and> set_calls (h' 3) = [(''m'', VInt 2), (''m'', VInt 2)]
          \<and> set_calls (h' 2) = [] \<and> vals (h' 2) ''m'' = Some (VInt 1))"
  by (simp add: eval_defs)

text \<open>
  Both cases in that scope: for \<open>m\<close> the writable source outranks the defaults that
  hold the key; for \<open>c\<close> the command line, which holds the key, outranks the writable
  source, and both receive \<^verbatim>\<open>set\<close> once. The file source 3 and its parent 1 are
  dirty afterwards, the other sources are not.
\<close>

theorem setattr_write_targeting_witness:
  "(\<not> startswith_underscore ''m'' \<and> \<not> startswith_underscore ''c''
    \<and> find (\<lambda>a. writable (write_heap a)) (rev (sources (write_scopes 1))) = Some 3
    \<and> src_chain write_heap [3, 1]
    \<and> find (known write_heap ''m'') (rev (sources (write_scopes 1))) = Some 2
    \<and> find (known write_heap ''c'') (rev (sources (write_scopes 1))) = Some 4)
   \<and> outranks_known write_heap (sources (write_scopes 1)) ''m'' 3
   \<and> \<not> outranks_known write_heap (sources (write_scopes 1)) ''c'' 3
   \<and> (\<exists>h'. setattr write_scopes write_heap 1 ''m'' (VInt 2) = Some (Inr Done, h')
          \<and> set_calls (h' 3) = [(''m'', VInt 2), (''m'', VInt 2)] \<and> set_calls (h' 2) = []
          \<and> dirty (h' 3) \<and> dirty (h' 1) \<and> \<not> dirty (h' 2))
   \<and> (\<exists>h'. setattr write_scopes write_heap 1 ''c'' (VStr ''y'') = Some (Inr Done, h')
          \<and> set_calls (h' 3) = [(''c'', VStr ''y'')] \<and> set_calls (h' 4) = [(''c'', VStr ''y'')]
          \<and> dirty (h' 3) \<and> dirty (h' 1) \<and> \<not> dirty (h' 4))"
proof -
  have hyps: "\<not> startswith_underscore ''m''" "\<not> startswith_underscore ''c''"
    "find (\<lambda>a. writable (write_heap a)) (rev (sources (write_scopes 1))) = Some 3"
    "src_chain write_heap [3, 1]"
    "find (known write_heap ''m'') (rev (sources (write_scopes 1))) = Some 2"
    "find (known write_heap ''c'') (rev (sources (write_scopes 1))) = Some 4"
    by (simp_all add: fixture_defs)
  have rank: "outranks_known write_heap (sources (write_scopes 1)) ''m'' 3"
    "\<not> outranks_known write_heap (sources (write_scopes 1)) ''c'' 3"
    by (simp_all add: outranks_known_def fixture_defs)
  have flags: "set_calls (write_heap 2) = []" "set_calls (write_heap 3) = []"
    "set_calls (write_heap 4) = []" "\<not> dirty (write_heap 1)" "\<not> dirty (write_heap 2)"
    "\<not> dirty (write_heap 3)" "\<not> dirty (write_heap 4)"
    by (simp_all add: fixture_defs)
  have m: "\<exists>h'. setattr write_scopes write_heap 1 ''m'' (VInt 2) = Some (Inr Done, h')
          \<and> set_calls (h' 3) = [(''m'', VInt 2), (''m'', VInt 2)] \<and> set_calls (h' 2) = []
          \<and> dirty (h' 3) \<and> dirty (h' 1) \<and> \<not> dirty (h' 2)"
    using setattr_write_targeting[where cs = write_scopes and self = 1 and h = write_heap
        and name = "''m''" and w = 3 and as = "[1]" and d = 2 and v = "VInt 2"]
      hyps rank flags
    by auto
  have c: "\<exists>h'. setattr write_scopes write_heap 1 ''c'' (VStr ''y'') = Some (Inr Done, h')
          \<and> set_calls (h' 3) = [(''c'', VStr ''y'')] \<and> set_calls (h' 4) = [(''c'', VStr ''y'')]
          \<and> dirty (h' 3) \<and> dirty (h' 1) \<and> \<not> dirty (h' 4)"
    using setattr_write_targeting[where cs = write_scopes and self = 1 and h = write_heap
        and name = "''c''" and w = 3 and as = "[1]" and d = 4 and v = "VStr ''y''"]
      hyps rank flags
    by auto
  from hyps rank m c show ?thesis by blast
qed

text \<open>
  Claim C6, as amended. In a scope with cascade off, a writable source and no source
  that has the key or is typed for it, an assignment writes the value into the
  highest-priority writable source \<open>W\<close> and marks \<open>W\<close> and its ancestors dirty. The
  second scan then finds \<open>W\<close>, which now has the key: \<open>W\<close> receives \<^verbatim>\<open>set\<close> a second
  time and the assignment returns normally, without \<^verbatim>\<open>AttributeError\<close>. Other
  sources change in their dirty flag at most.
\<close>

theorem setattr_unknown_key_writable:
  assumes key: "\<not> startswith_underscore name"
    and nocasc: "\<not> cascade (cs self)"
    and w: "find (\<lambda>a. writable (h a)) (rev (sources (cs self))) = Some w"
    and ch: "src_chain h (w # as)"
    and none: "\<forall>a \<in> set (sources (cs self)). \<not> known h name a"
  shows "\<exists>h'. setattr cs h self name v = Some (Inr Done, h')
     \<and> vals (h' w) name = Some v
     \<and> set_calls (h' w) = set_calls (h w) @ [(name, v), (name, v)]
     \<and> (\<forall>x. dirty (h' x) = (x = w \<or> x \<in> set as \<or> dirty (h x)))
     \<and> (\<forall>x. x \<noteq> w \<longrightarrow> h' x = (h x)\<lparr>dirty := (x \<in> set as \<or> dirty (h x))\<rparr>)"
proof -
  let ?h1 = "written h w as name v"
  let ?h' = "?h1(w := src_set name v (?h1 w))"
  have "setattr cs h self name v = Some (Inr Done, ?h')"
    using key w ch none by (rule setattr_absorbed)
  moreover have "vals (?h' w) name = Some v"
    "set_calls (?h' w) = set_calls (h w) @ [(name, v), (name, v)]"
    "\<forall>x. dirty (?h' x) = (x = w \<or> x \<in> set as \<or> dirty (h x))"
    "\<forall>x. x \<noteq> w \<longrightarrow> ?h' x = (h x)\<lparr>dirty := (x \<in> set as \<or> dirty (h x))\<rparr>"
    by (simp_all add: written_def src_set_def)
  ultimately show ?thesis by blast
qed

text \<open>
  A scope with cascade off, a writable source and a key \<open>z\<close> that no source knows:
  the assignment returns normally.
\<close>

theorem setattr_unknown_key_writable_counterexample:
  "\<not> cascade (write_scopes 3) \<and> sources (write_scopes 3) = [2, 3, 4] \<and> writable (write_heap 3)
   \<and> \<not> known write_heap ''z'' 2 \<and> \<not> known write_heap ''z'' 3 \<and> \<not> known write_heap ''z'' 4
   \<and> (\<exists>h'. setattr write_scopes write_heap 3 ''z'' (VInt 0) = Some (Inr Done, h'))"
  by (simp add: eval_defs)

text \<open>
  In that scope the writable source 3 holds \<open>z\<close> afterwards, has received \<^verbatim>\<open>set\<close>
  twice, and is dirty together with its parent 1.
\<close>

theorem setattr_unknown_key_writable_witness:
  "(\<not> startswith_underscore ''z'' \<and> \<not> cascade (write_scopes 3)
    \<and> find (\<lambda>a. writable (write_heap a)) (rev (sources (write_scopes 3))) = Some 3
    \<and> src_chain write_heap [3, 1]
    \<and> sources (write_scopes 3) = [2, 3, 4]
    \<and> \<not> known write_heap ''z'' 2 \<and> \<not> known write_heap ''z'' 3 \<and> \<not> known write_heap ''z'' 4)
   \<and> (\<exists>h'. setattr write_scopes write_heap 3 ''z'' (VInt 0) = Some (Inr Done, h')
          \<and> vals (h' 3) ''z'' = Some (VInt 0)
          \<and> set_calls (h' 3) = [(''z'', VInt 0), (''z'', VInt 0)]
          \<and> dirty (h' 3) \<and> dirty (h' 1) \<and> \<not> dirty (h' 2))"
proof -
  have hyps: "\<not> startswith_underscore ''z''" "\<not> cascade (write_scopes 3)"
    "find (\<lambda>a. writable (write_heap a)) (rev (sources (write_scopes 3))) = Some 3"
    "src_chain write_heap [3, 1]"
    "\<forall>a \<in> set (sources (write_scopes 3)). \<not> known write_heap ''z'' a"
    by (simp_all add: fixture_defs)
  have more: "sources (write_scopes 3) = [2, 3, 4]" "set_calls (write_heap 3) = []"
    "\<not> dirty (write_heap 2)"
    by (simp_all add: fixture_defs)
  have "\<exists>h'. setattr write_scopes write_heap 3 ''z'' (VInt 0) = Some (Inr Done, h')
          \<and> vals (h' 3) ''z'' = Some (VInt 0)
          \<and> set_calls (h' 3) = [(''z'', VInt 0), (''z'', VInt 0)]
          \<and> dirty (h' 3) \<and> dirty (h' 1) \<and> \<not> dirty (h' 2)"
    using setattr_unknown_key_writable[where cs = write_scopes and self = 3 and h = write_heap
        and name = "''z''" and w = 3 and as = "[1]" and v = "VInt 0"]
      hyps more
    by auto
  with hyps more show ?thesis by simp
qed

text \<open>
  Claim C9, as amended. In a scope with cascade on and a parent scope, where no local
  source has the key or is typed for it: without a local writable source the
  assignment is the parent scope's assignment, on the unchanged store; with a local
  writable source \<open>W\<close> it ends in this scope: \<open>W\<close> receives \<^verbatim>\<open>set\<close> twice, \<open>W\<close> and its
  ancestors are dirty, and no other source, of the parent scope or elsewhere, receives
  \<^verbatim>\<open>set\<close>.
\<close>

theorem setattr_cascade_unknown_key:
  assumes key: "\<not> startswith_underscore name"
    and casc: "cascade (cs self)"
    and par: "cfg_parent (cs self) = Some p"
    and none: "\<forall>a \<in> set (sources (cs self)). \<not> known h name a"
  shows "((\<forall>a \<in> set (sources (cs self)). \<not> writable (h a)) \<longrightarrow>
            setattr cs h self name v = setattr cs h p name v)
     \<and> (find (\<lambda>a. writable (h a)) (rev (sources (cs self))) = Some w \<longrightarrow>
          src_chain h (w # as) \<longrightarrow>
          (\<exists>h'. setattr cs h self name v = Some (Inr Done, h')
             \<and> vals (h' w) name = Some v
             \<and> set_calls (h' w) = set_calls (h w) @ [(name, v), (name, v)]
             \<and> (\<forall>x. dirty (h' x) = (x = w \<or> x \<in> set as \<or> dirty (h x)))
             \<and> (\<forall>x. x \<noteq> w \<longrightarrow>
                    set_calls (h' x) = set_calls (h x) \<and> vals (h' x) = vals (h x))))"
proof -
  have deleg: "setattr cs h self name v = setattr cs h p name v"
    if nowr: "\<forall>a \<in> set (sources (cs self)). \<not> writable (h a)"
  proof -
    have wt: "write_target h (sources (cs self)) name v = Some h"
      using nowr by (rule write_target_none)
    from none have "find (known h name) (rev (sources (cs self))) = None"
      by (simp add: find_None_iff)
    with key wt have "setattr cs h self name v =
       (if cascade (cs self) then
          (case cfg_parent (cs self) of
             Some p \<Rightarrow> setattr cs h p name v
           | None \<Rightarrow> Some (Inl AttributeError, h))
        else Some (Inl AttributeError, h))"
      by (intro setattr_step2_none)
    with casc par show ?thesis by simp
  qed
  have local: "\<exists>h'. setattr cs h self name v = Some (Inr Done, h')
             \<and> vals (h' w) name = Some v
             \<and> set_calls (h' w) = set_calls (h w) @ [(name, v), (name, v)]
             \<and> (\<forall>x. dirty (h' x) = (x = w \<or> x \<in> set as \<or> dirty (h x)))
             \<and> (\<forall>x. x \<noteq> w \<longrightarrow>
                    set_calls (h' x) = set_calls (h x) \<and> vals (h' x) = vals (h x))"
    if w: "find (\<lambda>a. writable (h a)) (rev (sources (cs self))) = Some w"
      and ch: "src_chain h (w # as)"
  proof -
    let ?h1 = "written h w as name v"
    let ?h' = "?h1(w := src_set name v (?h1 w))"
    have "setattr cs h self name v = Some (Inr Done, ?h')"
      using key w ch none by (rule setattr_absorbed)
    moreover have "vals (?h' w) name = Some v"
      "set_calls (?h' w) = set_calls (h w) @ [(name, v), (name, v)]"
      "\<forall>x. dirty (?h' x) = (x = w \<or> x \<in> set as \<or> dirty (h x))"
      "\<forall>x. x \<noteq> w \<longrightarrow> set_calls (?h' x) = set_calls (h x) \<and> vals (?h' x) = vals (h x)"
      by (simp_all add: written_def src_set_def)
    ultimately show ?thesis by blast
  qed
  from deleg local show ?thesis by blast
qed

text \<open>
  A child scope with cascade on whose writable source is 3, below a parent scope whose
  writable source is 1: assigning the unknown key \<open>z\<close> in the child scope calls
  \<^verbatim>\<open>set\<close> on source 3 twice and never on source 1.
\<close>

theorem setattr_cascade_unknown_key_counterexample:
  "cascade (write_scopes 1) \<and> cfg_parent (write_scopes 1) = Some 0
   \<and> sources (write_scopes 1) = [2, 3, 4]
   \<and> \<not> known write_heap ''z'' 2 \<and> \<not> known write_heap ''z'' 3 \<and> \<not> known write_heap ''z'' 4
   \<and> find (\<lambda>a. writable (write_heap a)) (rev (sources (write_scopes 0))) = Some 1
   \<and> (\<exists>h'. setattr write_scopes write_heap 1 ''z'' (VInt 0) = Some (Inr Done, h')
          \<and> set_calls (h' 3) = [(''z'', VInt 0), (''z'', VInt 0)]
          \<and> set_calls (h' 1) = [] \<and> vals (h' 1) ''z'' = None)"
  by (simp add: eval_defs)

text \<open>
  Scope 2 has no writable source and hands the assignment to its parent, scope 0;
  scope 1 has the writable source 3 and keeps it.
\<close>

theorem setattr_cascade_unknown_key_witness:
  "(\<not> startswith_underscore ''z''
    \<and> cascade (write_scopes 1) \<and> cfg_parent (write_scopes 1) = Some 0
    \<and> cascade (write_scopes 2) \<and> cfg_parent (write_scopes 2) = Some 0
    \<and> sources (write_scopes 1) = [2, 3, 4] \<and> sources (write_scopes 2) = [2, 4]
    \<and> \<not> known write_heap ''z'' 2 \<and> \<not> known write_heap ''z'' 3 \<and> \<not> known write_heap ''z'' 4
    \<and> \<not> writable (write_heap 2) \<and> \<not> writable (write_heap 4)
    \<and> find (\<lambda>a. writable (write_heap a)) (rev (sources (write_scopes 1))) = Some 3
    \<and> src_chain write_heap [3, 1])
   \<and> setattr write_scopes write_heap 2 ''z'' (VInt 0) = setattr write_scopes write_heap 0 ''z'' (VInt 0)
   \<and> (\<exists>h'. setattr write_scopes write_heap 1 ''z'' (VInt 0) = Some (Inr Done, h')
          \<and> set_calls (h' 3) = [(''z'', VInt 0), (''z'', VInt 0)] \<and> set_calls (h' 1) = []
          \<and> dirty (h' 3) \<and> dirty (h' 1))"
proof -
  have hyps: "\<not> startswith_underscore ''z''"
    "cascade (write_scopes 1)" "cfg_parent (write_scopes 1) = Some 0"
    "cascade (write_scopes 2)" "cfg_parent (write_scopes 2) = Some 0"
    "\<forall>a \<in> set (sources (write_scopes 1)). \<not> known write_heap ''z'' a"
    "\<forall>a \<in> set (sources (write_scopes 2)). \<not> known write_heap ''z'' a"
    "\<forall>a \<in> set (sources (write_scopes 2)). \<not> writable (write_heap a)"
    "find (\<lambda>a. writable (write_heap a)) (rev (sources (write_scopes 1))) = Some 3"
    "src_chain write_heap [3, 1]"
    by (simp_all add: fixture_defs)
  have more: "sources (write_scopes 1) = [2, 3, 4]" "sources (write_scopes 2) = [2, 4]"
    "set_calls (write_heap 3) = []" "set_calls (write_heap 1) = []"
    by (simp_all add: fixture_defs)
  have deleg: "setattr write_scopes write_heap 2 ''z'' (VInt 0)
      = setattr write_scopes write_heap 0 ''z'' (VInt 0)"
    using setattr_cascade_unknown_key[where cs = write_scopes and self = 2 and h = write_heap
        and name = "''z''" and p = 0 and v = "VInt 0"]
      hyps
    by blast
  have local: "\<exists>h'. setattr write_scopes write_heap 1 ''z'' (VInt 0) = Some (Inr Done, h')
          \<and> set_calls (h' 3) = [(''z'', VInt 0), (''z'', VInt 0)] \<and> set_calls (h' 1) = []
          \<and> dirty (h' 3) \<and> dirty (h' 1)"
    using setattr_cascade_unknown_key[where cs = write_scopes and self = 1 and h = write_heap
        and name = "''z''" and p = 0 and w = 3 and as = "[1]" and v = "VInt 0"]
      hyps more
    by auto
  from hyps more deleg local show ?thesis by simp
qed

subsection \<open>Construction\<close>

text \<open>
  Step 1 collects the union of the sources' subsection names in first-seen order.
\<close>

lemma remdups_drop_seen:
  "k \<in> set ys \<Longrightarrow> remdups (xs @ k # ys) = remdups (xs @ ys)"
  by (induction xs) auto

lemma remdups_append_remdups: "remdups (xs @ remdups ys) = remdups (xs @ ys)"
  by (induction xs) auto

lemma first_seen_seen:
  "k \<in> set acc \<Longrightarrow> first_seen (acc @ k # ks) = first_seen (acc @ ks)"
  by (simp add: first_seen_def remdups_drop_seen)

lemma first_seen_distinct: "distinct xs \<Longrightarrow> first_seen xs = xs"
  by (simp add: first_seen_def distinct_remdups_id)

lemma add_sectionkeys_eq:
  "distinct acc \<Longrightarrow> add_sectionkeys acc ks = first_seen (acc @ ks)"
proof (induction ks arbitrary: acc)
  case Nil
  then show ?case by (simp add: first_seen_distinct)
next
  case (Cons k ks)
  show ?case
  proof (cases "k \<in> set acc")
    case True
    with Cons show ?thesis by (simp add: first_seen_seen)
  next
    case False
    with Cons.prems have "distinct (acc @ [k])" by simp
    from Cons.IH[OF this] False show ?thesis by simp
  qed
qed

lemma distinct_first_seen: "distinct (first_seen xs)"
  by (simp add: first_seen_def)

lemma find_sectionkeys_eq:
  "distinct acc \<Longrightarrow>
   find_sectionkeys h acc ss = first_seen (acc @ concat (map (subsection_names h) ss))"
proof (induction ss arbitrary: acc)
  case Nil
  then show ?case by (simp add: first_seen_distinct)
next
  case (Cons src ss)
  show ?case
  proof (cases "subs (h src)")
    case None
    then have "subsection_names h src = []"
      by (simp add: subsection_names_def)
    with Cons None show ?thesis by simp
  next
    case (Some kvs)
    have d: "distinct (first_seen (acc @ map fst kvs))" by (rule distinct_first_seen)
    have "first_seen (first_seen (acc @ map fst kvs) @ concat (map (subsection_names h) ss))
        = first_seen (acc @ map fst kvs @ concat (map (subsection_names h) ss))"
      by (simp add: first_seen_def remdups_append_remdups)
    moreover have "subsection_names h src = map fst kvs"
      by (simp add: subsection_names_def Some)
    ultimately show ?thesis
      using Cons.IH[OF d] Cons.prems Some by (simp add: add_sectionkeys_eq)
  qed
qed

text \<open>
  Step 2, for sources that all support \<^verbatim>\<open>subsections()\<close>: the list built for a name
  has one entry per source, in the order of the sources, and the sources that existed
  before are unchanged.
\<close>

lemma find_subsections_pairs:
  assumes "\<forall>src \<in> set ss. subs (srcs st src) \<noteq> None"
    and "\<forall>src \<in> set ss. src < next_src st"
  shows "\<exists>st' s'. find_subsections st casc k ss s = Inr (st', s @ s')
     \<and> list_all2 (paired (srcs st) (srcs st') (next_src st) casc k) ss s'
     \<and> (\<forall>a < next_src st. srcs st' a = srcs st a)
     \<and> next_src st \<le> next_src st' \<and> cfgs st' = cfgs st \<and> next_cfg st' = next_cfg st"
  using assms
proof (induction ss arbitrary: st s)
  case Nil
  then show ?case by simp
next
  case (Cons src ss)
  from Cons.prems obtain kvs where kvs: "subs (srcs st src) = Some kvs" by auto
  show ?case
  proof (cases "map_of kvs k")
    case (Some sub)
    from Cons.prems have "\<forall>x \<in> set ss. subs (srcs st x) \<noteq> None" "\<forall>x \<in> set ss. x < next_src st"
      by simp_all
    from Cons.IH[OF this, of "s @ [sub]"] obtain st' s' where
      r: "find_subsections st casc k ss (s @ [sub]) = Inr (st', (s @ [sub]) @ s')"
      and p: "list_all2 (paired (srcs st) (srcs st') (next_src st) casc k) ss s'"
      and f: "\<forall>a < next_src st. srcs st' a = srcs st a" "next_src st \<le> next_src st'"
        "cfgs st' = cfgs st" "next_cfg st' = next_cfg st"
      by blast
    have "paired (srcs st) (srcs st') (next_src st) casc k src sub"
      by (simp add: paired_def own_subsection_def kvs Some)
    with r p f kvs Some show ?thesis
      by (intro exI[of _ st'] exI[of _ "sub # s'"]) simp
  next
    case None
    let ?a = "next_src st"
    let ?st1 = "st\<lparr>srcs := (srcs st)(?a := placeholder (srcs st src) src casc), next_src := Suc ?a\<rparr>"
    from Cons.prems have old: "\<forall>x \<in> set (src # ss). x < ?a" by simp
    then have same: "\<forall>x \<in> set (src # ss). srcs ?st1 x = srcs st x" by auto
    with Cons.prems have "\<forall>x \<in> set ss. subs (srcs ?st1 x) \<noteq> None" "\<forall>x \<in> set ss. x < next_src ?st1"
      by auto
    from Cons.IH[OF this, of "s @ [?a]"] obtain st' s' where
      r: "find_subsections ?st1 casc k ss (s @ [?a]) = Inr (st', (s @ [?a]) @ s')"
      and p: "list_all2 (paired (srcs ?st1) (srcs st') (next_src ?st1) casc k) ss s'"
      and f: "\<forall>a < next_src ?st1. srcs st' a = srcs ?st1 a" "next_src ?st1 \<le> next_src st'"
        "cfgs st' = cfgs ?st1" "next_cfg st' = next_cfg ?st1"
      by blast
    have here: "paired (srcs st) (srcs st') ?a casc k src ?a"
      using f(1) by (simp add: paired_def own_subsection_def kvs None)
    have "paired (srcs st) (srcs st') ?a casc k x y"
      if "x \<in> set ss" "paired (srcs ?st1) (srcs st') (next_src ?st1) casc k x y" for x y
    proof -
      from that(1) same have "srcs ?st1 x = srcs st x" by simp
      with that(2) show ?thesis
        by (auto simp: paired_def own_subsection_def split: option.splits)
    qed
    with p have p': "list_all2 (paired (srcs st) (srcs st') ?a casc k) ss s'"
      by (auto simp: list_all2_conv_all_nth)
    have f': "\<forall>a < ?a. srcs st' a = srcs st a"
      using f(1) by simp
    from r p' here f f' kvs None show ?thesis
      by (intro exI[of _ st'] exI[of _ "?a # s'"]) (simp add: Let_def)
  qed
qed

text \<open>
  The constructor on well-formed input: for sources that support \<^verbatim>\<open>subsections()\<close>
  down to a nesting depth of \<open>n\<close>, a depth bound of \<open>n + 1\<close> is enough. The new scope
  holds the given sources and flags; its subsection names are the first-seen union of
  the sources' names; each child scope has the scope as parent, its name as section
  key, the same flags, and one source per source of the scope: the source's own
  subsection or a placeholder allocated by this call.
\<close>

lemma nested_Suc: "nested h n a \<Longrightarrow> nested h (Suc n) a"
proof (induction n arbitrary: a)
  case 0
  then show ?case by simp
next
  case (Suc n)
  from Suc.prems obtain kvs where kvs: "subs (h a) = Some kvs"
    and sub: "\<forall>b \<in> snd ` set kvs. nested h n b"
    by (auto split: option.splits)
  from sub Suc.IH have "\<forall>b \<in> snd ` set kvs. nested h (Suc n) b" by blast
  with kvs show ?case
    by (subst nested.simps(2)) (simp del: nested.simps)
qed

lemma nested_0: "nested h 0 a \<Longrightarrow> nested h n a"
  by (induction n) (auto intro: nested_Suc simp del: nested.simps)

lemma nested_frame:
  assumes "\<forall>x < bound. h' x = h x" "closed h bound"
  shows "a < bound \<Longrightarrow> nested h' n a = nested h n a"
proof (induction n arbitrary: a)
  case 0
  with assms show ?case by simp
next
  case (Suc n)
  from Suc.prems assms(1) have same: "h' a = h a" by simp
  show ?case
  proof (cases "subs (h a)")
    case None
    with same show ?thesis by simp
  next
    case (Some kvs)
    with assms(2) Suc.prems have "\<forall>b \<in> snd ` set kvs. b < bound"
      by (auto simp: closed_def split: option.splits)
    with Suc.IH have "\<forall>b \<in> snd ` set kvs. nested h' n b = nested h n b" by blast
    with same Some show ?thesis by simp
  qed
qed

lemma update_fresh: "k \<notin> fst ` set al \<Longrightarrow> AList.update k v al = al @ [(k, v)]"
  by (induction al) auto

lemma find_subsections_bounds:
  assumes "\<forall>src \<in> set ss. subs (srcs st src) \<noteq> None"
    and "\<forall>src \<in> set ss. src < next_src st"
    and "closed (srcs st) (next_src st)"
    and "\<forall>a \<in> set s. a < next_src st"
    and "find_subsections st casc k ss s = Inr (st', s')"
  shows "closed (srcs st') (next_src st') \<and> (\<forall>a \<in> set s'. a < next_src st')"
  using assms
proof (induction ss arbitrary: st s)
  case Nil
  then show ?case by simp
next
  case (Cons src ss)
  from Cons.prems obtain kvs where kvs: "subs (srcs st src) = Some kvs" by auto
  show ?case
  proof (cases "map_of kvs k")
    case (Some sub)
    then have "sub \<in> snd ` set kvs"
      by (force dest: map_of_SomeD)
    with Cons.prems(2,3) kvs have "sub < next_src st"
      by (auto simp: closed_def split: option.splits)
    with Cons.prems kvs Some show ?thesis
      by (intro Cons.IH[of st "s @ [sub]"]) simp_all
  next
    case None
    let ?a = "next_src st"
    let ?st1 = "st\<lparr>srcs := (srcs st)(?a := placeholder (srcs st src) src casc), next_src := Suc ?a\<rparr>"
    have cl: "closed (srcs ?st1) (next_src ?st1)"
      using Cons.prems(3)
      by (auto simp: closed_def placeholder_def less_Suc_eq split: option.splits)
    from Cons.prems(2) have "\<forall>x \<in> set ss. srcs ?st1 x = srcs st x" by auto
    with Cons.prems have sup: "\<forall>x \<in> set ss. subs (srcs ?st1 x) \<noteq> None" by simp
    from Cons.prems have al: "\<forall>x \<in> set ss. x < next_src ?st1" by auto
    from Cons.prems have bs: "\<forall>x \<in> set (s @ [?a]). x < next_src ?st1" by auto
    from Cons.prems(5) kvs None
    have "find_subsections ?st1 casc k ss (s @ [?a]) = Inr (st', s')"
      by (simp add: Let_def)
    from Cons.IH[OF sup al cl bs this] show ?thesis .
  qed
qed


lemma paired_transfer:
  assumes "paired h1 h1' fresh1 casc k src a"
    and "h1 src = h src" and "fresh \<le> fresh1"
    and "fresh1 \<le> a \<Longrightarrow> h' a = h1' a"
  shows "paired h h' fresh casc k src a"
  using assms by (auto simp: paired_def own_subsection_def split: option.splits)

lemma paired_nested:
  assumes p: "paired h h1 bound casc k src a"
    and n: "nested h (Suc m) src" and src: "src < bound"
    and cl: "closed h bound" and fr: "\<forall>x < bound. h1 x = h x"
  shows "nested h1 m a"
proof (cases "own_subsection h src k")
  case None
  with p have "h1 a = placeholder (h src) src casc" by (simp add: paired_def)
  then have "nested h1 0 a" by (simp add: placeholder_def)
  then show ?thesis by (rule nested_0)
next
  case (Some sub)
  with p have a: "a = sub" by (simp add: paired_def)
  from n obtain kvs where kvs: "subs (h src) = Some kvs"
    and sub: "\<forall>b \<in> snd ` set kvs. nested h m b"
    by (auto split: option.splits)
  from Some kvs have "map_of kvs k = Some sub" by (simp add: own_subsection_def)
  then have mem: "sub \<in> snd ` set kvs" by (force dest: map_of_SomeD)
  with cl src kvs have "sub < bound" by (auto simp: closed_def split: option.splits)
  with nested_frame[OF fr cl] have "nested h1 m sub = nested h m sub" by simp
  moreover from sub mem have "nested h m sub" by blast
  ultimately show ?thesis using a by simp
qed


lemma list_all2_right: "list_all2 P xs ys \<Longrightarrow> y \<in> set ys \<Longrightarrow> \<exists>x \<in> set xs. P x y"
  by (induction rule: list_all2_induct) auto

lemma make_subsections_loop:
  assumes IH: "\<And>st s. closed (srcs st) (next_src st) \<Longrightarrow>
      \<forall>a \<in> set s. a < next_src st \<and> nested (srcs st) m a \<Longrightarrow>
      \<exists>st'. init (Suc m) st s casc wr = Some (Inr (st', next_cfg st)) \<and> extends st st'
         \<and> next_cfg st < next_cfg st' \<and> (\<forall>c < next_cfg st. cfgs st' c = cfgs st c)
         \<and> sources (cfgs st' (next_cfg st)) = s \<and> cascade (cfgs st' (next_cfg st)) = casc
         \<and> cfg_writable (cfgs st' (next_cfg st)) = wr"
  shows "closed (srcs st) (next_src st) \<Longrightarrow> self < next_cfg st \<Longrightarrow>
     sources (cfgs st self) = ss \<Longrightarrow> cascade (cfgs st self) = casc \<Longrightarrow>
     cfg_writable (cfgs st self) = wr \<Longrightarrow>
     \<forall>a \<in> set ss. a < next_src st \<and> nested (srcs st) (Suc m) a \<Longrightarrow>
     distinct ks \<Longrightarrow> set ks \<inter> fst ` set (subsections (cfgs st self)) = {} \<Longrightarrow>
     \<exists>st' new. make_subsections (Suc m) st self ks = Some (Inr st') \<and> extends st st'
       \<and> (\<forall>c < next_cfg st. c \<noteq> self \<longrightarrow> cfgs st' c = cfgs st c)
       \<and> cfgs st' self = (cfgs st self)\<lparr>subsections := subsections (cfgs st self) @ new\<rparr>
       \<and> map fst new = ks
       \<and> (\<forall>(k, c) \<in> set new. child_ok st st' self ss casc wr k c)"
proof (induction ks arbitrary: st)
  case Nil
  then show ?case
    by (intro exI[of _ st] exI[of _ "[]"]) (simp add: extends_def)
next
  case (Cons k ks)
  note cl = Cons.prems(1) and self = Cons.prems(2) and ss = Cons.prems(3)
    and casc = Cons.prems(4) and wr = Cons.prems(5) and nest = Cons.prems(6)
    and dist = Cons.prems(7) and new = Cons.prems(8)
  let ?h = "srcs st"
  let ?c = "next_cfg st"
  from nest have sup: "\<forall>src \<in> set ss. subs (?h src) \<noteq> None"
    by (auto split: option.splits)
  from nest have alloc: "\<forall>src \<in> set ss. src < next_src st" by simp
  from find_subsections_pairs[OF sup alloc, of casc k "[]"] obtain st1 s where
    fs: "find_subsections st casc k ss [] = Inr (st1, s)"
    and pr: "list_all2 (paired ?h (srcs st1) (next_src st) casc k) ss s"
    and fr1: "\<forall>a < next_src st. srcs st1 a = ?h a"
    and n1: "next_src st \<le> next_src st1"
    and c1: "cfgs st1 = cfgs st" and nc1: "next_cfg st1 = ?c"
    by auto
  from find_subsections_bounds[OF sup alloc cl _ fs]
  have cl1: "closed (srcs st1) (next_src st1)" and b1: "\<forall>a \<in> set s. a < next_src st1"
    by simp_all
  have nest1: "nested (srcs st1) m a" if "a \<in> set s" for a
  proof -
    from list_all2_right[OF pr that] obtain src where
      src: "src \<in> set ss" and p: "paired ?h (srcs st1) (next_src st) casc k src a"
      by blast
    from src nest have n: "nested ?h (Suc m) src" and b: "src < next_src st" by simp_all
    show ?thesis by (rule paired_nested[OF p n b cl fr1])
  qed
  with b1 have "\<forall>a \<in> set s. a < next_src st1 \<and> nested (srcs st1) m a" by simp
  from IH[OF cl1 this] obtain st2 where
    "init (Suc m) st1 s casc wr = Some (Inr (st2, next_cfg st1))"
    "extends st1 st2" "next_cfg st1 < next_cfg st2"
    "\<forall>c < next_cfg st1. cfgs st2 c = cfgs st1 c"
    "sources (cfgs st2 (next_cfg st1)) = s" "cascade (cfgs st2 (next_cfg st1)) = casc"
    "cfg_writable (cfgs st2 (next_cfg st1)) = wr"
    by blast
  then have i2: "init (Suc m) st1 s casc wr = Some (Inr (st2, ?c))"
    and e2: "extends st1 st2" and nc2: "?c < next_cfg st2"
    and fr2: "\<forall>c < ?c. cfgs st2 c = cfgs st1 c"
    and src2: "sources (cfgs st2 ?c) = s" and casc2: "cascade (cfgs st2 ?c) = casc"
    and wr2: "cfg_writable (cfgs st2 ?c) = wr"
    by (simp_all only: nc1)
  from self have neq: "self \<noteq> ?c" by simp
  from fr2 self c1 have self2: "cfgs st2 self = cfgs st self" by simp
  from new have knew: "k \<notin> fst ` set (subsections (cfgs st self))" by auto
  define st5 where "st5 = st2\<lparr>cfgs := (cfgs st2)
      (?c := (cfgs st2 ?c)\<lparr>sectionkey := Some k, cfg_parent := Some self\<rparr>,
       self := (cfgs st self)\<lparr>subsections := subsections (cfgs st self) @ [(k, ?c)]\<rparr>)\<rparr>"
  have step: "make_subsections (Suc m) st self (k # ks) = make_subsections (Suc m) st5 self ks"
    using neq by (simp add: ss fs c1 casc wr i2 Let_def st5_def self2 update_fresh[OF knew]
        del: init.simps)
  have srcs5: "srcs st5 = srcs st2" "next_src st5 = next_src st2" "next_cfg st5 = next_cfg st2"
    by (simp_all add: st5_def)
  have cfg5_self: "cfgs st5 self = (cfgs st self)\<lparr>subsections := subsections (cfgs st self) @ [(k, ?c)]\<rparr>"
    by (simp add: st5_def)
  have cfg5_c: "cfgs st5 ?c = (cfgs st2 ?c)\<lparr>sectionkey := Some k, cfg_parent := Some self\<rparr>"
    using neq by (simp add: st5_def)
  have cfg5_other: "cfgs st5 c = cfgs st c" if "c < ?c" "c \<noteq> self" for c
    using that fr2 c1 by (simp add: st5_def)
  from e2 have old2: "\<forall>a < next_src st1. srcs st2 a = srcs st1 a"
    and n2: "next_src st1 \<le> next_src st2" and cl2: "closed (srcs st2) (next_src st2)"
    by (simp_all add: extends_def)
  have old5: "\<forall>a < next_src st. srcs st5 a = ?h a"
    using old2 fr1 n1 by (simp add: srcs5)
  have nest5: "\<forall>a \<in> set ss. a < next_src st5 \<and> nested (srcs st5) (Suc m) a"
  proof
    fix a assume a: "a \<in> set ss"
    with nest have "a < next_src st" "nested ?h (Suc m) a" by simp_all
    moreover from nested_frame[OF old5 cl \<open>a < next_src st\<close>]
    have "nested (srcs st5) (Suc m) a = nested ?h (Suc m) a" .
    ultimately show "a < next_src st5 \<and> nested (srcs st5) (Suc m) a"
      using n1 n2 by (simp add: srcs5)
  qed
  from dist have dist': "distinct ks" and kks: "k \<notin> set ks" by simp_all
  from new kks have new5: "set ks \<inter> fst ` set (subsections (cfgs st5 self)) = {}"
    by (auto simp: cfg5_self)
  have "\<exists>st' new. make_subsections (Suc m) st5 self ks = Some (Inr st') \<and> extends st5 st'
       \<and> (\<forall>c < next_cfg st5. c \<noteq> self \<longrightarrow> cfgs st' c = cfgs st5 c)
       \<and> cfgs st' self = (cfgs st5 self)\<lparr>subsections := subsections (cfgs st5 self) @ new\<rparr>
       \<and> map fst new = ks
       \<and> (\<forall>(k, c) \<in> set new. child_ok st5 st' self ss casc wr k c)"
  proof (rule Cons.IH)
    show "closed (srcs st5) (next_src st5)" using cl2 by (simp add: srcs5)
    show "self < next_cfg st5" using self nc2 by (simp add: srcs5)
    show "sources (cfgs st5 self) = ss" using ss by (simp add: cfg5_self)
    show "cascade (cfgs st5 self) = casc" using casc by (simp add: cfg5_self)
    show "cfg_writable (cfgs st5 self) = wr" using wr by (simp add: cfg5_self)
    show "\<forall>a \<in> set ss. a < next_src st5 \<and> nested (srcs st5) (Suc m) a" by (rule nest5)
    show "distinct ks" by (rule dist')
    show "set ks \<inter> fst ` set (subsections (cfgs st5 self)) = {}" by (rule new5)
  qed
  then obtain st' new' where
    ms: "make_subsections (Suc m) st5 self ks = Some (Inr st')"
    and e5: "extends st5 st'"
    and fr5: "\<forall>c < next_cfg st5. c \<noteq> self \<longrightarrow> cfgs st' c = cfgs st5 c"
    and self': "cfgs st' self = (cfgs st5 self)\<lparr>subsections := subsections (cfgs st5 self) @ new'\<rparr>"
    and keys': "map fst new' = ks"
    and ch': "\<forall>(k, c) \<in> set new'. child_ok st5 st' self ss casc wr k c"
    by blast
  from e5 have old': "\<forall>a < next_src st5. srcs st' a = srcs st5 a"
    and n5: "next_src st5 \<le> next_src st'" and nc5: "next_cfg st5 \<le> next_cfg st'"
    and cl': "closed (srcs st') (next_src st')"
    by (simp_all add: extends_def)
  have ext: "extends st st'"
    using old' old5 n1 n2 n5 nc2 nc5 cl' by (simp add: extends_def srcs5)
  have others: "\<forall>c < ?c. c \<noteq> self \<longrightarrow> cfgs st' c = cfgs st c"
    using fr5 cfg5_other nc2 by (simp add: srcs5)
  have selfeq: "cfgs st' self = (cfgs st self)\<lparr>subsections := subsections (cfgs st self) @ (k, ?c) # new'\<rparr>"
    by (simp add: self' cfg5_self)
  have child_k: "child_ok st st' self ss casc wr k ?c"
  proof -
    from fr5 nc2 neq have c': "cfgs st' ?c = cfgs st5 ?c" by (simp add: srcs5)
    have "list_all2 (paired ?h (srcs st') (next_src st) casc k) ss s"
      using pr
    proof (rule list.rel_mono_strong)
      fix src a assume "a \<in> set s" and p: "paired ?h (srcs st1) (next_src st) casc k src a"
      with b1 have "a < next_src st1" by simp
      with old' old2 n2 have "srcs st' a = srcs st1 a" by (simp add: srcs5)
      then show "paired ?h (srcs st') (next_src st) casc k src a"
        by (intro paired_transfer[OF p]) simp_all
    qed
    then show ?thesis
      by (simp add: child_ok_def c' cfg5_c src2 casc2 wr2)
  qed
  have child_rest: "child_ok st st' self ss casc wr k' c'" if "(k', c') \<in> set new'" for k' c'
  proof -
    from ch' that have ok: "child_ok st5 st' self ss casc wr k' c'" by auto
    then have "list_all2 (paired (srcs st5) (srcs st') (next_src st5) casc k') ss (sources (cfgs st' c'))"
      by (simp add: child_ok_def)
    then have "list_all2 (paired ?h (srcs st') (next_src st) casc k') ss (sources (cfgs st' c'))"
    proof (rule list.rel_mono_strong)
      fix src a assume "src \<in> set ss"
        and p: "paired (srcs st5) (srcs st') (next_src st5) casc k' src a"
      with alloc old5 have "srcs st5 src = ?h src" by simp
      with n1 n2 show "paired ?h (srcs st') (next_src st) casc k' src a"
        by (intro paired_transfer[OF p]) (simp_all add: srcs5)
    qed
    with ok show ?thesis by (simp add: child_ok_def)
  qed
  show ?case
  proof (intro exI[of _ st'] exI[of _ "(k, ?c) # new'"] conjI)
    show "make_subsections (Suc m) st self (k # ks) = Some (Inr st')"
      by (simp only: step ms)
    show "extends st st'" by (rule ext)
    show "\<forall>c < ?c. c \<noteq> self \<longrightarrow> cfgs st' c = cfgs st c" by (rule others)
    show "cfgs st' self = (cfgs st self)\<lparr>subsections := subsections (cfgs st self) @ (k, ?c) # new'\<rparr>"
      by (rule selfeq)
    show "map fst ((k, ?c) # new') = k # ks" by (simp add: keys')
    show "\<forall>(k, c) \<in> set ((k, ?c) # new'). child_ok st st' self ss casc wr k c"
      using child_k child_rest by auto
  qed
qed


lemma init_builds:
  "closed (srcs st) (next_src st) \<Longrightarrow>
   \<forall>a \<in> set ss. a < next_src st \<and> nested (srcs st) n a \<Longrightarrow>
   \<exists>st'. init (Suc n) st ss casc wr = Some (Inr (st', next_cfg st)) \<and> extends st st'
      \<and> next_cfg st < next_cfg st' \<and> (\<forall>c < next_cfg st. cfgs st' c = cfgs st c)
      \<and> built st st' (next_cfg st) ss casc wr"
proof (induction n arbitrary: st ss casc wr)
  case 0
  then have "\<forall>a \<in> set ss. subsection_names (srcs st) a = []"
    by (simp add: subsection_names_def)
  then have "concat (map (subsection_names (srcs st)) ss) = []" by simp
  then have keys: "find_sectionkeys (srcs st) [] ss = []"
    by (simp add: find_sectionkeys_eq first_seen_def)
  with 0 show ?case
    by (simp add: keys Let_def extends_def built_def first_seen_def subsection_names_def)
next
  case (Suc m)
  note cl = Suc.prems(1) and nest = Suc.prems(2)
  let ?self = "next_cfg st"
  let ?rec = "\<lparr>sources = ss, subsections = [], cascade = casc, cfg_writable = wr,
      cfg_parent = None, sectionkey = None\<rparr>"
  let ?st1 = "st\<lparr>cfgs := (cfgs st)(?self := ?rec), next_cfg := Suc ?self\<rparr>"
  let ?keys = "find_sectionkeys (srcs st) [] ss"
  have keys: "?keys = first_seen (concat (map (subsection_names (srcs st)) ss))"
    by (simp add: find_sectionkeys_eq)
  have IH': "\<exists>st'. init (Suc m) st0 s casc wr = Some (Inr (st', next_cfg st0)) \<and> extends st0 st'
         \<and> next_cfg st0 < next_cfg st' \<and> (\<forall>c < next_cfg st0. cfgs st' c = cfgs st0 c)
         \<and> sources (cfgs st' (next_cfg st0)) = s \<and> cascade (cfgs st' (next_cfg st0)) = casc
         \<and> cfg_writable (cfgs st' (next_cfg st0)) = wr"
    if "closed (srcs st0) (next_src st0)"
      "\<forall>a \<in> set s. a < next_src st0 \<and> nested (srcs st0) m a" for st0 s
    using Suc.IH[OF that, of casc wr] by (auto simp: built_def)
  have "\<exists>st' new. make_subsections (Suc m) ?st1 ?self ?keys = Some (Inr st') \<and> extends ?st1 st'
       \<and> (\<forall>c < next_cfg ?st1. c \<noteq> ?self \<longrightarrow> cfgs st' c = cfgs ?st1 c)
       \<and> cfgs st' ?self = (cfgs ?st1 ?self)\<lparr>subsections := subsections (cfgs ?st1 ?self) @ new\<rparr>
       \<and> map fst new = ?keys
       \<and> (\<forall>(k, c) \<in> set new. child_ok ?st1 st' ?self ss casc wr k c)"
  proof (rule make_subsections_loop[OF IH'])
    show "closed (srcs ?st1) (next_src ?st1)" using cl by simp
    show "?self < next_cfg ?st1" by simp
    show "sources (cfgs ?st1 ?self) = ss" by simp
    show "cascade (cfgs ?st1 ?self) = casc" by simp
    show "cfg_writable (cfgs ?st1 ?self) = wr" by simp
    show "\<forall>a \<in> set ss. a < next_src ?st1 \<and> nested (srcs ?st1) (Suc m) a"
      using nest by simp
    show "distinct ?keys" by (simp only: keys distinct_first_seen)
    show "set ?keys \<inter> fst ` set (subsections (cfgs ?st1 ?self)) = {}" by simp
  qed
  then obtain st' new where
    ms: "make_subsections (Suc m) ?st1 ?self ?keys = Some (Inr st')"
    and ext: "extends ?st1 st'"
    and others: "\<forall>c < next_cfg ?st1. c \<noteq> ?self \<longrightarrow> cfgs st' c = cfgs ?st1 c"
    and self: "cfgs st' ?self = (cfgs ?st1 ?self)\<lparr>subsections := subsections (cfgs ?st1 ?self) @ new\<rparr>"
    and names: "map fst new = ?keys"
    and children: "\<forall>(k, c) \<in> set new. child_ok ?st1 st' ?self ss casc wr k c"
    by blast
  have i: "init (Suc (Suc m)) st ss casc wr = Some (Inr (st', ?self))"
    by (simp add: Let_def ms del: make_subsections.simps)
  have e: "extends st st'" "?self < next_cfg st'"
    using ext by (simp_all add: extends_def)
  have o: "\<forall>c < ?self. cfgs st' c = cfgs st c"
    using others by simp
  have b: "built st st' ?self ss casc wr"
    using children by (simp add: built_def self names keys child_ok_def)
  from i e o b show ?case by blast
qed

lemmas init_eval = union_heap_def union_state_def blank_source_def blank_scope_def
  placeholder_def Let_def

text \<open>
  The example of the specification: \<open>S1\<close> with the subsections \<open>a, b\<close> and \<open>S2\<close> with
  \<open>b, c\<close>. The scope gets the subsections \<open>a, b, c\<close> in this order; the child scope for
  \<open>a\<close> pairs the subsection of \<open>S1\<close> with a new placeholder for \<open>S2\<close>, the one for \<open>c\<close> a
  new placeholder for \<open>S1\<close> with the subsection of \<open>S2\<close>.
\<close>

lemma init_union_example:
  "\<exists>st. init (Suc (Suc 0)) union_state [0, 1] True True = Some (Inr (st, 0))
     \<and> subsections (cfgs st 0) = [(''a'', 1), (''b'', 2), (''c'', 3)]
     \<and> sources (cfgs st 1) = [2, 6] \<and> sources (cfgs st 2) = [3, 4] \<and> sources (cfgs st 3) = [7, 5]
     \<and> srcs st 6 = placeholder (union_heap 1) 1 True
     \<and> srcs st 7 = placeholder (union_heap 0) 0 True
     \<and> cfg_parent (cfgs st 1) = Some 0 \<and> sectionkey (cfgs st 1) = Some ''a''
     \<and> cascade (cfgs st 1) \<and> cfg_writable (cfgs st 1)"
  by (simp add: init_eval)

text \<open>
  Claim C4 asks, for every list of sources, for a scope whose subsections are the union
  of the sources' subsection names in first-seen order, each child scope holding one
  entry per source: the source's own subsection, or a new empty placeholder of the
  source's kind. The construction does not get there for the sources \<open>S1\<close> with the
  subsections \<open>a, b\<close> and \<open>S2\<close> without support for \<^verbatim>\<open>subsections()\<close>: step 1 skips
  \<open>S2\<close> in its \<^verbatim>\<open>except\<close> clause and finds the names \<open>a, b\<close>, step 2 calls
  \<^verbatim>\<open>S2.subsections()\<close> outside any \<^verbatim>\<open>try\<close>, and the constructor ends with
  \<^verbatim>\<open>AttributeError\<close> instead of a child scope with a placeholder for \<open>S2\<close>, whatever
  the bound on the nesting depth.
\<close>

theorem init_unsupported_source_raises:
  "subs (srcs unsupported_state 0) = Some [(''a'', 2), (''b'', 3)]
   \<and> subs (srcs unsupported_state 1) = None
   \<and> find_sectionkeys (srcs unsupported_state) [] [0, 1] = [''a'', ''b'']
   \<and> init (Suc n) unsupported_state [0, 1] False True = Some (Inl AttributeError)"
  by (simp add: unsupported_state_def init_eval)

end
